theory Spec2Isabelle
  imports Main "HOL-Library.Word"
begin

section \<open>The generic (de)serialization engine of opm/common/utility/Serializer.hpp\<close>

text \<open>
  The class template \<open>Opm::Serializer<Packer>\<close> walks a value by its static C++ type and
  hands every primitive to a byte-level packer. It runs in three modes
  (\<open>PACKSIZE\<close>, \<open>PACK\<close>, \<open>UNPACK\<close>) that share one recursive dispatch routine,
  \<open>operator()\<close>. This theory embeds that routine and its handlers as HOL functions over
  an explicit serializer state, and proves properties of packing and unpacking.
\<close>

subsection \<open>Static types and run-time values\<close>

text \<open>
  The dispatch of \<open>operator()\<close> is decided at compile time by the traits \<open>is_ptr\<close>,
  \<open>is_pair_or_tuple\<close>, \<open>is_variant\<close>, \<open>is_optional\<close>, \<open>is_vector\<close>, \<open>is_map\<close>,
  \<open>is_array\<close>, \<open>is_set\<close> and \<open>has_serializeOp\<close>. A static type is therefore a term of
  \<open>ty\<close>, one constructor per trait, and \<open>TLeaf\<close> for everything that falls through to the
  packer. Four primitive types stand for the leaves: \<open>std::size_t\<close> (container sizes and
  variant indices, a \<open>nat\<close>: a container never holds \<open>2^64\<close> elements), \<open>bool\<close> (the
  flags of pointers and optionals), \<open>int\<close> and \<open>std::string\<close> (a primitive that is
  not a POD).

  \<^item> \<open>TPtr T\<close> is \<open>std::unique_ptr<T>\<close> or \<open>std::shared_ptr<T>\<close>. A value
    \<open>VPtr (Some (a, x))\<close> owns the pointee \<open>x\<close> stored at address \<open>a\<close>; \<open>VPtr None\<close>
    is the null pointer. Each pointer is the single owner of its pointee.
  \<^item> \<open>TTuple Ts\<close> is \<open>std::tuple<Ts...>\<close>; \<open>std::pair<A, B>\<close> is \<open>TTuple [A, B]\<close>.
  \<^item> \<open>TVariant Ts\<close> is \<open>std::variant<Ts...>\<close>; \<open>VVariant i x\<close> holds alternative \<open>i\<close>.
  \<^item> \<open>TMap K V\<close> is \<open>std::map<K, V>\<close> or \<open>std::unordered_map<K, V>\<close>. A value
    \<open>VMap es\<close> lists the entries (each a pair \<open>VTuple [k, v]\<close>, the container's
    \<open>value_type\<close>) in the container's iteration order. \<open>TSet\<close> and \<open>VSet\<close> likewise.
  \<^item> \<open>TArray N T\<close> is \<open>std::array<T, N>\<close>.
  \<^item> \<open>TComposite Ts\<close> is a class with a \<open>serializeOp\<close> member that passes its members, of
    types \<open>Ts\<close>, to the serializer one after the other in a fixed order, as
    \<open>AquiferConfig::serializeOp\<close> does; \<open>VComposite ms\<close> holds those members.

  Recursive class types have no finite term of \<open>ty\<close> and are outside this model.
\<close>

type_synonym byte = "8 word"
type_synonym addr = nat

datatype lty = KSize | KBool | KInt | KStr
datatype leaf = LSize nat | LBool bool | LInt int | LStr string

datatype ty =
    TLeaf lty
  | TPtr ty
  | TTuple "ty list"
  | TVariant "ty list"
  | TOptional ty
  | TVector ty
  | TMap ty ty
  | TArray nat ty
  | TSet ty
  | TComposite "ty list"

datatype val =
    VLeaf leaf
  | VPtr "(addr \<times> val) option"
  | VTuple "val list"
  | VVariant nat val
  | VOptional "val option"
  | VVector "val list"
  | VMap "val list"
  | VArray "val list"
  | VSet "val list"
  | VComposite "val list"

text \<open>The enumeration \<open>Serializer::Operation\<close>, and what can abort a call.
  \<open>InvalidVariantIndex\<close> is the \<open>std::runtime_error\<close> thrown by \<open>make_variant\<close>.
  \<open>PackerError\<close> is a failure inside the packer while reading. \<open>BufferOverrun\<close> is a
  write past the end of \<open>m_buffer\<close> (undefined behaviour in C++). \<open>IllTyped\<close> marks a
  value that does not have the static type it is dispatched at; the C++ type system rules
  this out, so the branch exists only to make the HOL functions total.\<close>

datatype Operation = PACKSIZE | PACK | UNPACK
datatype error = InvalidVariantIndex | PackerError | BufferOverrun | IllTyped

subsection \<open>The packer\<close>

text \<open>
  Modelled from the spec: the \<open>Packer\<close> template parameter (the byte-level leaf
  collaborator; no packer class is part of the sources at hand). The spec requires, for
  every primitive type, \<open>packSize(value)\<close>, \<open>pack(value, buffer, position)\<close> which
  writes and advances the position, and \<open>unpack(value_ref, buffer, position)\<close> which reads
  and advances the position, and the same three operations on a contiguous run of \<open>n\<close>
  elements given by pointer and count.

  A packer is a record of six functions. \<open>p_bytes\<close> gives the bytes that \<open>pack\<close> writes
  at the cursor, \<open>p_read\<close> decodes a primitive of the requested type from the bytes that
  start at the cursor and says how many it used (\<open>None\<close>: the packer fails), and
  \<open>p_packSize\<close> is the size it announces. The fields ending in \<open>N\<close> are the overloads
  for a run of elements of one POD type. Nothing relates the six functions to each other:
  that \<open>p_packSize\<close> is the length of \<open>p_bytes\<close>, and that \<open>p_read\<close> inverts
  \<open>p_bytes\<close>, are hypotheses of the theorems that need them (\<open>packer_sizes\<close> and
  \<open>packer_inverts\<close> below).
\<close>

record packer =
  p_packSize :: "leaf \<Rightarrow> nat"
  p_bytes :: "leaf \<Rightarrow> byte list"
  p_read :: "lty \<Rightarrow> byte list \<Rightarrow> (leaf \<times> nat) option"
  p_packSizeN :: "ty \<Rightarrow> val list \<Rightarrow> nat"
  p_bytesN :: "ty \<Rightarrow> val list \<Rightarrow> byte list"
  p_readN :: "ty \<Rightarrow> nat \<Rightarrow> byte list \<Rightarrow> (val list \<times> nat) option"

subsection \<open>The serializer state\<close>

text \<open>
  The data members \<open>m_op\<close>, \<open>m_packSize\<close>, \<open>m_position\<close> and \<open>m_buffer\<close> of the class
  (\<open>m_packer\<close> is the argument \<open>P\<close> of every function below). \<open>m_position\<close> is declared
  \<open>int\<close> and only ever advanced by the packer; it is a \<open>nat\<close> here, so buffers beyond
  \<open>INT_MAX\<close> bytes are outside the model.

  The last field is not a member of the class. It is the free store as far as the handler
  for smart pointers needs it: the addresses handed out by \<open>new\<close> so far. An allocation
  takes an address that is not in the list and adds it.
\<close>

record state =
  m_op :: Operation
  m_packSize :: nat
  m_position :: nat
  m_buffer :: "byte list"
  allocated :: "addr list"

definition Serializer :: state where
  "Serializer = \<lparr>m_op = PACKSIZE, m_packSize = 0, m_position = 0, m_buffer = [], allocated = []\<rparr>"

definition position :: "state \<Rightarrow> nat" where
  "position s = m_position s"

definition isSerializing :: "state \<Rightarrow> bool" where
  "isSerializing s = (m_op s \<noteq> UNPACK)"

text \<open>An exception unwinds through the recursive dispatch: the first error ends the call.\<close>

definition and_then :: "error + 'a \<Rightarrow> ('a \<Rightarrow> error + 'b) \<Rightarrow> error + 'b" where
  "and_then m f = (case m of Inl e \<Rightarrow> Inl e | Inr x \<Rightarrow> f x)"

lemma and_then_cong [fundef_cong]:
  "m = m' \<Longrightarrow> (\<And>x. m' = Inr x \<Longrightarrow> f x = f' x) \<Longrightarrow> and_then m f = and_then m' f'"
  by (cases m') (simp_all add: and_then_def)

subsection \<open>Default construction\<close>

text \<open>
  \<open>default_val T\<close> is the value-initialised object of type \<open>T\<close> (\<open>T res{}\<close> in
  \<open>optional\<close>, the new slots of \<open>resize\<close>, the alternative built by
  \<open>std::in_place_index_t\<close>). The code default-initialises in two places
  (\<open>new T1\<close> in \<open>ptr\<close>, \<open>typename Map::value_type entry;\<close> in \<open>map\<close> and \<open>set\<close>),
  which leaves scalars indeterminate where value-initialisation zeroes them; every scalar
  of such an object is overwritten by the packer before anything reads it, and the model
  uses \<open>default_val\<close> there as well.
\<close>

primrec default_leaf :: "lty \<Rightarrow> leaf" where
  "default_leaf KSize = LSize 0"
| "default_leaf KBool = LBool False"
| "default_leaf KInt = LInt 0"
| "default_leaf KStr = LStr []"

primrec default_val :: "ty \<Rightarrow> val" where
  "default_val (TLeaf k) = VLeaf (default_leaf k)"
| "default_val (TPtr t) = VPtr None"
| "default_val (TTuple ts) = VTuple (map default_val ts)"
| "default_val (TVariant ts) = VVariant 0 (case map default_val ts of [] \<Rightarrow> VTuple [] | d # _ \<Rightarrow> d)"
| "default_val (TOptional t) = VOptional None"
| "default_val (TVector t) = VVector []"
| "default_val (TMap tk tv) = VMap []"
| "default_val (TArray n t) = VArray (replicate n (default_val t))"
| "default_val (TSet t) = VSet []"
| "default_val (TComposite ts) = VComposite (map default_val ts)"

text \<open>\<open>std::is_pod_v\<close>: scalars and arrays of PODs. \<open>std::string\<close>, the containers,
  \<open>std::optional\<close>, \<open>std::variant\<close>, pairs, tuples and smart pointers are not PODs, and
  the composites are taken to be non-trivial classes (as \<open>AquiferConfig\<close>, whose members
  have default member initialisers).\<close>

primrec is_pod :: "ty \<Rightarrow> bool" where
  "is_pod (TLeaf k) = (k \<noteq> KStr)"
| "is_pod (TPtr t) = False"
| "is_pod (TTuple ts) = False"
| "is_pod (TVariant ts) = False"
| "is_pod (TOptional t) = False"
| "is_pod (TVector t) = False"
| "is_pod (TMap tk tv) = False"
| "is_pod (TArray n t) = is_pod t"
| "is_pod (TSet t) = False"
| "is_pod (TComposite ts) = False"

subsection \<open>detail::make_variant\<close>

text \<open>
  \<open>MakeVariantImpl<Ts...>::make_variant<Index, T, Rest...>(index)\<close> walks the list of
  alternatives from \<open>Index = 0\<close>: it returns the variant holding a value-initialised
  alternative \<open>Index\<close> when \<open>Index == index\<close>, recurses while \<open>Rest\<close> is not empty, and
  throws otherwise. The template needs at least one alternative.
\<close>

fun make_variant_impl :: "nat \<Rightarrow> ty list \<Rightarrow> nat \<Rightarrow> error + val" where
  "make_variant_impl Index [] index = Inl IllTyped"
| "make_variant_impl Index (T # Rest) index =
     (if Index = index then Inr (VVariant Index (default_val T))
      else if Rest \<noteq> [] then make_variant_impl (Index + 1) Rest index
      else Inl InvalidVariantIndex)"

definition make_variant :: "ty list \<Rightarrow> nat \<Rightarrow> error + val" where
  "make_variant Ts index = make_variant_impl 0 Ts index"

subsection \<open>Leaves and contiguous runs\<close>

text \<open>
  Modelled from the spec: how a packer touches the buffer. \<open>pack\<close> writes its bytes at
  \<open>m_position\<close> into the buffer, which \<open>Serializer::pack\<close> has already resized, and
  advances \<open>m_position\<close> by their number; it never resizes the buffer.
\<close>

definition packer_pack :: "byte list \<Rightarrow> state \<Rightarrow> error + state" where
  "packer_pack bs s =
     (if m_position s + length bs \<le> length (m_buffer s)
      then Inr (s\<lparr>m_buffer := take (m_position s) (m_buffer s) @ bs
                              @ drop (m_position s + length bs) (m_buffer s),
                 m_position := m_position s + length bs\<rparr>)
      else Inl BufferOverrun)"

text \<open>The last branch of \<open>operator()\<close>: the value goes to the packer. In \<open>UNPACK\<close> mode
  the packer overwrites the destination, whatever it held.\<close>

definition leaf :: "packer \<Rightarrow> lty \<Rightarrow> val \<Rightarrow> state \<Rightarrow> error + val \<times> state" where
  "leaf P k data s =
     (case m_op s of
        PACKSIZE \<Rightarrow>
          (case data of
             VLeaf l \<Rightarrow> Inr (data, s\<lparr>m_packSize := m_packSize s + p_packSize P l\<rparr>)
           | _ \<Rightarrow> Inl IllTyped)
      | PACK \<Rightarrow>
          (case data of
             VLeaf l \<Rightarrow> and_then (packer_pack (p_bytes P l) s) (\<lambda>s'. Inr (data, s'))
           | _ \<Rightarrow> Inl IllTyped)
      | UNPACK \<Rightarrow>
          (case p_read P k (drop (m_position s) (m_buffer s)) of
             None \<Rightarrow> Inl PackerError
           | Some (l, n) \<Rightarrow> Inr (VLeaf l, s\<lparr>m_position := m_position s + n\<rparr>)))"

text \<open>The three calls \<open>m_packer.packSize(ptr, n)\<close>, \<open>m_packer.pack(ptr, n, ...)\<close> and
  \<open>m_packer.unpack(ptr, n, ...)\<close> that \<open>vector\<close> and \<open>array\<close> make for POD elements;
  when unpacking, \<open>n\<close> is the size of the destination, and the packer fills exactly
  those \<open>n\<close> slots.\<close>

definition block :: "packer \<Rightarrow> ty \<Rightarrow> val list \<Rightarrow> state \<Rightarrow> error + val list \<times> state" where
  "block P t xs s =
     (case m_op s of
        PACKSIZE \<Rightarrow> Inr (xs, s\<lparr>m_packSize := m_packSize s + p_packSizeN P t xs\<rparr>)
      | PACK \<Rightarrow> and_then (packer_pack (p_bytesN P t xs) s) (\<lambda>s'. Inr (xs, s'))
      | UNPACK \<Rightarrow>
          (case p_readN P t (length xs) (drop (m_position s) (m_buffer s)) of
             None \<Rightarrow> Inl PackerError
           | Some (ys, n) \<Rightarrow>
               if length ys = length xs then Inr (ys, s\<lparr>m_position := m_position s + n\<rparr>)
               else Inl IllTyped))"

text \<open>\<open>std::vector::resize\<close>, also used for \<open>m_buffer.resize(m_packSize)\<close>.\<close>

definition resize :: "'a \<Rightarrow> 'a list \<Rightarrow> nat \<Rightarrow> 'a list" where
  "resize d xs n = take n xs @ replicate (n - length xs) d"

text \<open>The address returned by \<open>new\<close>: one that no object allocated so far has.\<close>

definition fresh :: "addr list \<Rightarrow> addr" where
  "fresh as = Suc (fold max as 0)"

text \<open>
  \<open>data_mut.insert(entry)\<close> of \<open>std::map\<close>, \<open>std::unordered_map\<close>, \<open>std::set\<close> and
  \<open>std::unordered_set\<close>: the entry is added unless the container already holds an entry
  with the same key, in which case the container is left as it is. The key of a map entry
  is the first component of the pair, the key of a set entry is the entry. A new entry is
  put at the end of the list; where the concrete container would put it (sorted position,
  hash bucket) only matters for the iteration order, and a stream written by \<open>pack\<close>
  carries the entries in iteration order already.
\<close>

fun key_of :: "val \<Rightarrow> val" where
  "key_of (VTuple (k # _)) = k"
| "key_of v = v"

definition native_insert :: "(val \<Rightarrow> val) \<Rightarrow> val \<Rightarrow> val list \<Rightarrow> val list" where
  "native_insert key e es = (if key e \<in> key ` set es then es else es @ [e])"

text \<open>The \<open>UNPACK\<close> loop of the overload \<open>vector(const std::vector<bool>&)\<close>:
  \<open>bool entry = false; (*this)(entry); data_mut.push_back(entry);\<close>.\<close>

fun vector_bool_loop :: "packer \<Rightarrow> nat \<Rightarrow> val list \<Rightarrow> state \<Rightarrow> error + val list \<times> state" where
  "vector_bool_loop P 0 data_mut s = Inr (data_mut, s)"
| "vector_bool_loop P (Suc n) data_mut s =
     and_then (leaf P KBool (VLeaf (LBool False)) s)
       (\<lambda>(entry, s'). vector_bool_loop P n (data_mut @ [entry]) s')"

subsection \<open>The dispatch routine and its handlers\<close>

text \<open>A measure for the recursion: a map is heavier than the pair type of its entries.\<close>

primrec weight :: "ty \<Rightarrow> nat" where
  "weight (TLeaf k) = 1"
| "weight (TPtr t) = Suc (weight t)"
| "weight (TTuple ts) = Suc (sum_list (map weight ts))"
| "weight (TVariant ts) = Suc (sum_list (map weight ts))"
| "weight (TOptional t) = Suc (weight t)"
| "weight (TVector t) = Suc (weight t)"
| "weight (TMap tk tv) = weight tk + weight tv + 2"
| "weight (TArray n t) = Suc (weight t)"
| "weight (TSet t) = Suc (weight t)"
| "weight (TComposite ts) = Suc (sum_list (map weight ts))"

lemma weight_pos: "0 < weight t"
  by (cases t) simp_all

lemma weight_nth: "j < length ts \<Longrightarrow> weight (ts ! j) \<le> sum_list (map weight ts)"
  by (simp add: member_le_sum_list)

text \<open>
  \<open>serialize\<close> is \<open>Serializer::operator()\<close>; its equations are the handlers \<open>ptr\<close>,
  \<open>tuple\<close>, \<open>variant\<close>, \<open>optional\<close>, \<open>vector\<close>, \<open>map\<close>, \<open>array\<close>, \<open>set\<close>, the call
  of \<open>serializeOp\<close> and the leaf branch, in the order of the \<open>if constexpr\<close> chain.
  Each call returns the (possibly mutated) value together with the new state, or the error
  that aborted it. \<open>for_each\<close> is \<open>std::for_each(begin, end, std::ref(*this))\<close>,
  \<open>tuple_call\<close> is the member of that name, and \<open>insert_loop\<close> is the loop
  \<open>for (i = 0; i < size; ++i) { value_type entry; (*this)(entry); data_mut.insert(entry); }\<close>
  shared by \<open>map\<close> and \<open>set\<close>. Where a handler calls \<open>(*this)\<close> on a \<open>std::size_t\<close> or a
  \<open>bool\<close> of its own, the dispatch is known to end in the leaf branch and the model calls
  \<open>leaf\<close>. The overload for \<open>std::vector<bool>\<close> is the first case of \<open>vector\<close>.
\<close>

function (sequential)
    serialize :: "packer \<Rightarrow> ty \<Rightarrow> val \<Rightarrow> state \<Rightarrow> error + val \<times> state"
and for_each :: "packer \<Rightarrow> ty \<Rightarrow> val list \<Rightarrow> state \<Rightarrow> error + val list \<times> state"
and tuple_call :: "packer \<Rightarrow> ty list \<Rightarrow> val list \<Rightarrow> state \<Rightarrow> error + val list \<times> state"
and insert_loop :: "packer \<Rightarrow> (val \<Rightarrow> val) \<Rightarrow> ty \<Rightarrow> nat \<Rightarrow> val list \<Rightarrow> state
                     \<Rightarrow> error + val list \<times> state"
where
  "serialize P (TPtr T1) data s =
     (case data of
        VPtr p \<Rightarrow>
          and_then (leaf P KBool (VLeaf (LBool (p \<noteq> None))) s) (\<lambda>(flag, s1).
            case flag of
              VLeaf (LBool value) \<Rightarrow>
                (let (p', s2) =
                       (if m_op s1 = UNPACK \<and> value
                        then (Some (fresh (allocated s1), default_val T1),
                              s1\<lparr>allocated := fresh (allocated s1) # allocated s1\<rparr>)
                        else (p, s1))
                 in case p' of
                      Some (a, pointee) \<Rightarrow>
                        and_then (serialize P T1 pointee s2)
                          (\<lambda>(pointee', s3). Inr (VPtr (Some (a, pointee')), s3))
                    | None \<Rightarrow> Inr (VPtr None, s2))
            | _ \<Rightarrow> Inl IllTyped)
      | _ \<Rightarrow> Inl IllTyped)"
| "serialize P (TTuple Ts) data s =
     (case data of
        VTuple xs \<Rightarrow> and_then (tuple_call P Ts xs s) (\<lambda>(xs', s'). Inr (VTuple xs', s'))
      | _ \<Rightarrow> Inl IllTyped)"
| "serialize P (TVariant Ts) data s =
     (case data of
        VVariant i x \<Rightarrow>
          if m_op s = UNPACK then
            and_then (leaf P KSize (VLeaf (LSize 0)) s) (\<lambda>(iv, s1).
              case iv of
                VLeaf (LSize index) \<Rightarrow>
                  and_then (make_variant Ts index) (\<lambda>data_mut.
                    case data_mut of
                      VVariant j y \<Rightarrow>
                        if j < length Ts then
                          and_then (serialize P (Ts ! j) y s1)
                            (\<lambda>(y', s2). Inr (VVariant j y', s2))
                        else Inl IllTyped
                    | _ \<Rightarrow> Inl IllTyped)
              | _ \<Rightarrow> Inl IllTyped)
          else
            and_then (leaf P KSize (VLeaf (LSize i)) s) (\<lambda>(_, s1).
              if i < length Ts then
                and_then (serialize P (Ts ! i) x s1) (\<lambda>(x', s2). Inr (VVariant i x', s2))
              else Inl IllTyped)
      | _ \<Rightarrow> Inl IllTyped)"
| "serialize P (TOptional T) data s =
     (case data of
        VOptional opt \<Rightarrow>
          if m_op s = UNPACK then
            and_then (leaf P KBool (VLeaf (LBool False)) s) (\<lambda>(hv, s1).
              case hv of
                VLeaf (LBool has) \<Rightarrow>
                  if has then
                    and_then (serialize P T (default_val T) s1)
                      (\<lambda>(res, s2). Inr (VOptional (Some res), s2))
                  else Inr (VOptional opt, s1)
              | _ \<Rightarrow> Inl IllTyped)
          else
            and_then (leaf P KBool (VLeaf (LBool (opt \<noteq> None))) s) (\<lambda>(_, s1).
              case opt of
                Some x \<Rightarrow>
                  and_then (serialize P T x s1) (\<lambda>(x', s2). Inr (VOptional (Some x'), s2))
              | None \<Rightarrow> Inr (VOptional None, s1))
      | _ \<Rightarrow> Inl IllTyped)"
| "serialize P (TVector T) data s =
     (case data of
        VVector xs \<Rightarrow>
          if T = TLeaf KBool then
            (if m_op s = UNPACK then
               and_then (leaf P KSize (VLeaf (LSize 0)) s) (\<lambda>(sv, s1).
                 case sv of
                   VLeaf (LSize sz) \<Rightarrow>
                     and_then (vector_bool_loop P sz [] s1)
                       (\<lambda>(ys, s2). Inr (VVector ys, s2))
                 | _ \<Rightarrow> Inl IllTyped)
             else
               and_then (leaf P KSize (VLeaf (LSize (length xs))) s) (\<lambda>(_, s1).
                 and_then (for_each P T xs s1) (\<lambda>(ys, s2). Inr (VVector ys, s2))))
          else if is_pod T then
            (if m_op s = UNPACK then
               and_then (leaf P KSize (VLeaf (LSize 0)) s) (\<lambda>(sv, s1).
                 case sv of
                   VLeaf (LSize sz) \<Rightarrow>
                     and_then (block P T (resize (default_val T) xs sz) s1)
                       (\<lambda>(ys, s2). Inr (VVector ys, s2))
                 | _ \<Rightarrow> Inl IllTyped)
             else
               and_then (leaf P KSize (VLeaf (LSize (length xs))) s) (\<lambda>(_, s1).
                 and_then (block P T xs s1) (\<lambda>(ys, s2). Inr (VVector ys, s2))))
          else
            (if m_op s = UNPACK then
               and_then (leaf P KSize (VLeaf (LSize 0)) s) (\<lambda>(sv, s1).
                 case sv of
                   VLeaf (LSize sz) \<Rightarrow>
                     and_then (for_each P T (resize (default_val T) xs sz) s1)
                       (\<lambda>(ys, s2). Inr (VVector ys, s2))
                 | _ \<Rightarrow> Inl IllTyped)
             else
               and_then (leaf P KSize (VLeaf (LSize (length xs))) s) (\<lambda>(_, s1).
                 and_then (for_each P T xs s1) (\<lambda>(ys, s2). Inr (VVector ys, s2))))
      | _ \<Rightarrow> Inl IllTyped)"
| "serialize P (TMap K V) data s =
     (case data of
        VMap es \<Rightarrow>
          if m_op s = UNPACK then
            and_then (leaf P KSize (VLeaf (LSize 0)) s) (\<lambda>(sv, s1).
              case sv of
                VLeaf (LSize sz) \<Rightarrow>
                  and_then (insert_loop P key_of (TTuple [K, V]) sz es s1)
                    (\<lambda>(es', s2). Inr (VMap es', s2))
              | _ \<Rightarrow> Inl IllTyped)
          else
            and_then (leaf P KSize (VLeaf (LSize (length es))) s) (\<lambda>(_, s1).
              and_then (for_each P (TTuple [K, V]) es s1) (\<lambda>(es', s2). Inr (VMap es', s2)))
      | _ \<Rightarrow> Inl IllTyped)"
| "serialize P (TArray N T) data s =
     (case data of
        VArray xs \<Rightarrow>
          if is_pod T then and_then (block P T xs s) (\<lambda>(ys, s'). Inr (VArray ys, s'))
          else and_then (for_each P T xs s) (\<lambda>(ys, s'). Inr (VArray ys, s'))
      | _ \<Rightarrow> Inl IllTyped)"
| "serialize P (TSet T) data s =
     (case data of
        VSet es \<Rightarrow>
          if m_op s = UNPACK then
            and_then (leaf P KSize (VLeaf (LSize 0)) s) (\<lambda>(sv, s1).
              case sv of
                VLeaf (LSize sz) \<Rightarrow>
                  and_then (insert_loop P (\<lambda>e. e) T sz es s1)
                    (\<lambda>(es', s2). Inr (VSet es', s2))
              | _ \<Rightarrow> Inl IllTyped)
          else
            and_then (leaf P KSize (VLeaf (LSize (length es))) s) (\<lambda>(_, s1).
              and_then (for_each P T es s1) (\<lambda>(es', s2). Inr (VSet es', s2)))
      | _ \<Rightarrow> Inl IllTyped)"
| "serialize P (TComposite Ts) data s =
     (case data of
        VComposite ms \<Rightarrow>
          and_then (tuple_call P Ts ms s) (\<lambda>(ms', s'). Inr (VComposite ms', s'))
      | _ \<Rightarrow> Inl IllTyped)"
| "serialize P (TLeaf k) data s = leaf P k data s"
| "for_each P T [] s = Inr ([], s)"
| "for_each P T (x # xs) s =
     and_then (serialize P T x s) (\<lambda>(x', s1).
       and_then (for_each P T xs s1) (\<lambda>(xs', s2). Inr (x' # xs', s2)))"
| "tuple_call P [] [] s = Inr ([], s)"
| "tuple_call P (T # Ts) (x # xs) s =
     and_then (serialize P T x s) (\<lambda>(x', s1).
       and_then (tuple_call P Ts xs s1) (\<lambda>(xs', s2). Inr (x' # xs', s2)))"
| "tuple_call P _ _ s = Inl IllTyped"
| "insert_loop P key T 0 data_mut s = Inr (data_mut, s)"
| "insert_loop P key T (Suc n) data_mut s =
     and_then (serialize P T (default_val T) s) (\<lambda>(entry, s1).
       insert_loop P key T n (native_insert key entry data_mut) s1)"
  by pat_completeness auto

termination
proof (relation "inv_image (less_than <*lex*> less_than)
    (\<lambda>x. case x of
       Inl (Inl (P, t, v, s)) \<Rightarrow> (weight t, 0)
     | Inl (Inr (P, t, vs, s)) \<Rightarrow> (weight t, Suc (length vs))
     | Inr (Inl (P, ts, vs, s)) \<Rightarrow> (sum_list (map weight ts), 1)
     | Inr (Inr (P, key, t, n, d, s)) \<Rightarrow> (weight t, Suc n))", goal_cases)
  case 1
  show ?case by (intro wf_inv_image wf_lex_prod wf_less_than)
qed (use weight_pos weight_nth in \<open>auto simp: less_Suc_eq_le\<close>)

subsection \<open>The entry points\<close>

text \<open>\<open>Serializer::pack\<close> and \<open>Serializer::unpack\<close> for one value, then
  \<open>variadic_call\<close> and the variadic overloads of both.\<close>

definition pack :: "packer \<Rightarrow> ty \<Rightarrow> val \<Rightarrow> state \<Rightarrow> error + state" where
  "pack P T data s =
     and_then (serialize P T data (s\<lparr>m_op := PACKSIZE, m_packSize := 0\<rparr>)) (\<lambda>(_, s1).
       and_then (serialize P T data
                   (s1\<lparr>m_position := 0,
                       m_buffer := resize 0 (m_buffer s1) (m_packSize s1),
                       m_op := PACK\<rparr>))
         (\<lambda>(_, s2). Inr s2))"

definition unpack :: "packer \<Rightarrow> ty \<Rightarrow> val \<Rightarrow> state \<Rightarrow> error + val \<times> state" where
  "unpack P T data s = serialize P T data (s\<lparr>m_position := 0, m_op := UNPACK\<rparr>)"

fun variadic_call :: "packer \<Rightarrow> ty list \<Rightarrow> val list \<Rightarrow> state \<Rightarrow> error + val list \<times> state" where
  "variadic_call P (T # Args) (first # args) s =
     and_then (serialize P T first s) (\<lambda>(first', s1).
       if args \<noteq> [] then
         and_then (variadic_call P Args args s1) (\<lambda>(args', s2). Inr (first' # args', s2))
       else Inr ([first'], s1))"
| "variadic_call P _ _ s = Inl IllTyped"

definition pack_variadic :: "packer \<Rightarrow> ty list \<Rightarrow> val list \<Rightarrow> state \<Rightarrow> error + state" where
  "pack_variadic P Args data s =
     and_then (variadic_call P Args data (s\<lparr>m_op := PACKSIZE, m_packSize := 0\<rparr>)) (\<lambda>(_, s1).
       and_then (variadic_call P Args data
                   (s1\<lparr>m_position := 0,
                       m_buffer := resize 0 (m_buffer s1) (m_packSize s1),
                       m_op := PACK\<rparr>))
         (\<lambda>(_, s2). Inr s2))"

definition unpack_variadic ::
  "packer \<Rightarrow> ty list \<Rightarrow> val list \<Rightarrow> state \<Rightarrow> error + val list \<times> state" where
  "unpack_variadic P Args data s = variadic_call P Args data (s\<lparr>m_position := 0, m_op := UNPACK\<rparr>)"

section \<open>Well-typed values, observable equality and the wire format\<close>

text \<open>\<open>has_type T v\<close>: the value \<open>v\<close> is an object of static type \<open>T\<close>. The keys of a map
  and the elements of a set are pairwise distinct, an array has its static length, and a
  variant holds one of its alternatives.\<close>

primrec lty_of :: "leaf \<Rightarrow> lty" where
  "lty_of (LSize n) = KSize"
| "lty_of (LBool b) = KBool"
| "lty_of (LInt i) = KInt"
| "lty_of (LStr s) = KStr"

primrec has_type :: "ty \<Rightarrow> val \<Rightarrow> bool" where
  "has_type (TLeaf k) v = (case v of VLeaf l \<Rightarrow> lty_of l = k | _ \<Rightarrow> False)"
| "has_type (TPtr t) v =
     (case v of VPtr p \<Rightarrow> (case p of None \<Rightarrow> True | Some (a, x) \<Rightarrow> has_type t x) | _ \<Rightarrow> False)"
| "has_type (TTuple ts) v =
     (case v of VTuple xs \<Rightarrow> list_all2 (\<lambda>f x. f x) (map has_type ts) xs | _ \<Rightarrow> False)"
| "has_type (TVariant ts) v =
     (case v of VVariant i x \<Rightarrow> i < length ts \<and> (map has_type ts ! i) x | _ \<Rightarrow> False)"
| "has_type (TOptional t) v =
     (case v of VOptional opt \<Rightarrow> (case opt of None \<Rightarrow> True | Some x \<Rightarrow> has_type t x)
      | _ \<Rightarrow> False)"
| "has_type (TVector t) v = (case v of VVector xs \<Rightarrow> list_all (has_type t) xs | _ \<Rightarrow> False)"
| "has_type (TMap tk tv) v =
     (case v of
        VMap es \<Rightarrow>
          list_all (\<lambda>e. case e of VTuple [k, x] \<Rightarrow> has_type tk k \<and> has_type tv x | _ \<Rightarrow> False) es
          \<and> distinct (map key_of es)
      | _ \<Rightarrow> False)"
| "has_type (TArray n t) v =
     (case v of VArray xs \<Rightarrow> length xs = n \<and> list_all (has_type t) xs | _ \<Rightarrow> False)"
| "has_type (TSet t) v =
     (case v of VSet es \<Rightarrow> list_all (has_type t) es \<and> distinct es | _ \<Rightarrow> False)"
| "has_type (TComposite ts) v =
     (case v of VComposite ms \<Rightarrow> list_all2 (\<lambda>f x. f x) (map has_type ts) ms | _ \<Rightarrow> False)"





text \<open>
  The bytes of a well-typed value, used to state what the \<open>PACK\<close> pass writes:
  the leading size, index or flag of each shape, then the payload.
\<close>

primrec encode :: "packer \<Rightarrow> ty \<Rightarrow> val \<Rightarrow> byte list" where
  "encode P (TLeaf k) v = (case v of VLeaf l \<Rightarrow> p_bytes P l | _ \<Rightarrow> [])"
| "encode P (TPtr t) v =
     (case v of
        VPtr p \<Rightarrow> p_bytes P (LBool (p \<noteq> None))
                  @ (case p of None \<Rightarrow> [] | Some (a, x) \<Rightarrow> encode P t x)
      | _ \<Rightarrow> [])"
| "encode P (TTuple ts) v =
     (case v of VTuple xs \<Rightarrow> concat (map2 (\<lambda>f x. f x) (map (encode P) ts) xs) | _ \<Rightarrow> [])"
| "encode P (TVariant ts) v =
     (case v of
        VVariant i x \<Rightarrow> p_bytes P (LSize i) @ (if i < length ts then (map (encode P) ts ! i) x else [])
      | _ \<Rightarrow> [])"
| "encode P (TOptional t) v =
     (case v of
        VOptional opt \<Rightarrow> p_bytes P (LBool (opt \<noteq> None))
                  @ (case opt of None \<Rightarrow> [] | Some x \<Rightarrow> encode P t x)
      | _ \<Rightarrow> [])"
| "encode P (TVector t) v =
     (case v of
        VVector xs \<Rightarrow> p_bytes P (LSize (length xs))
                  @ (if t \<noteq> TLeaf KBool \<and> is_pod t then p_bytesN P t xs
                     else concat (map (encode P t) xs))
      | _ \<Rightarrow> [])"
| "encode P (TMap tk tv) v =
     (case v of
        VMap es \<Rightarrow> p_bytes P (LSize (length es))
                  @ concat (map (\<lambda>e. case e of VTuple [k, x] \<Rightarrow> encode P tk k @ encode P tv x
                                       | _ \<Rightarrow> []) es)
      | _ \<Rightarrow> [])"
| "encode P (TArray n t) v =
     (case v of
        VArray xs \<Rightarrow> (if is_pod t then p_bytesN P t xs else concat (map (encode P t) xs))
      | _ \<Rightarrow> [])"
| "encode P (TSet t) v =
     (case v of
        VSet es \<Rightarrow> p_bytes P (LSize (length es)) @ concat (map (encode P t) es)
      | _ \<Rightarrow> [])"
| "encode P (TComposite ts) v =
     (case v of VComposite ms \<Rightarrow> concat (map2 (\<lambda>f x. f x) (map (encode P) ts) ms) | _ \<Rightarrow> [])"

text \<open>
  The two parts of the packer's contract that the serializer relies on. \<open>packer_sizes\<close>:
  the announced size of a primitive, and of a run of POD elements, is the number of bytes
  that \<open>pack\<close> writes for it. \<open>packer_inverts\<close>: reading at the place where a primitive,
  or a run of POD elements, was written gives it back and uses up exactly its bytes,
  whatever follows them.
\<close>

definition packer_sizes :: "packer \<Rightarrow> bool" where
  "packer_sizes P \<longleftrightarrow>
     (\<forall>l. p_packSize P l = length (p_bytes P l)) \<and>
     (\<forall>t xs. is_pod t \<and> list_all (has_type t) xs
        \<longrightarrow> p_packSizeN P t xs = length (p_bytesN P t xs))"


subsection \<open>A packer to run the engine with\<close>

text \<open>
  A small self-delimiting packer, used for the concrete runs below: a size is written in
  unary (that many \<open>1\<close> bytes, then a \<open>0\<close>), a \<open>bool\<close> as one byte, an \<open>int\<close> as a
  sign byte and its magnitude, a string as its length and its characters. A run of POD
  elements is the concatenation of its elements, and an array the concatenation of its
  slots.
\<close>

definition unary :: "nat \<Rightarrow> byte list" where
  "unary n = replicate n 1 @ [0]"

definition read_unary :: "byte list \<Rightarrow> (nat \<times> nat) option" where
  "read_unary bs =
     (let n = length (takeWhile (\<lambda>b. b = 1) bs)
      in if n < length bs then Some (n, Suc n) else None)"

primrec demo_bytes :: "leaf \<Rightarrow> byte list" where
  "demo_bytes (LSize n) = unary n"
| "demo_bytes (LBool b) = [if b then 1 else 0]"
| "demo_bytes (LInt i) = (if i < 0 then 1 else 0) # unary (nat \<bar>i\<bar>)"
| "demo_bytes (LStr cs) = unary (length cs) @ map (\<lambda>c. of_nat (of_char c)) cs"

primrec demo_read :: "lty \<Rightarrow> byte list \<Rightarrow> (leaf \<times> nat) option" where
  "demo_read KSize bs = map_option (\<lambda>(n, used). (LSize n, used)) (read_unary bs)"
| "demo_read KBool bs = (case bs of [] \<Rightarrow> None | b # _ \<Rightarrow> Some (LBool (b \<noteq> 0), 1))"
| "demo_read KInt bs =
     (case bs of
        [] \<Rightarrow> None
      | sb # rest \<Rightarrow>
          map_option (\<lambda>(n, used). (LInt (if sb = 0 then int n else - int n), Suc used))
            (read_unary rest))"
| "demo_read KStr bs =
     (case read_unary bs of
        None \<Rightarrow> None
      | Some (n, used) \<Rightarrow>
          if used + n \<le> length bs
          then Some (LStr (map (\<lambda>b. char_of (unat b)) (take n (drop used bs))), used + n)
          else None)"

primrec demo_flat :: "val \<Rightarrow> byte list" where
  "demo_flat (VLeaf l) = demo_bytes l"
| "demo_flat (VPtr p) = []"
| "demo_flat (VTuple xs) = []"
| "demo_flat (VVariant i x) = []"
| "demo_flat (VOptional opt) = []"
| "demo_flat (VVector xs) = []"
| "demo_flat (VMap es) = []"
| "demo_flat (VArray xs) = concat (map demo_flat xs)"
| "demo_flat (VSet es) = []"
| "demo_flat (VComposite ms) = []"

fun read_n :: "(byte list \<Rightarrow> ('a \<times> nat) option) \<Rightarrow> nat \<Rightarrow> byte list \<Rightarrow> ('a list \<times> nat) option" where
  "read_n rd 0 bs = Some ([], 0)"
| "read_n rd (Suc n) bs =
     (case rd bs of
        None \<Rightarrow> None
      | Some (x, used) \<Rightarrow>
          (case read_n rd n (drop used bs) of
             None \<Rightarrow> None
           | Some (xs, used') \<Rightarrow> Some (x # xs, used + used')))"

primrec demo_unflat :: "ty \<Rightarrow> byte list \<Rightarrow> (val \<times> nat) option" where
  "demo_unflat (TLeaf k) bs = map_option (\<lambda>(l, used). (VLeaf l, used)) (demo_read k bs)"
| "demo_unflat (TPtr t) bs = None"
| "demo_unflat (TTuple ts) bs = None"
| "demo_unflat (TVariant ts) bs = None"
| "demo_unflat (TOptional t) bs = None"
| "demo_unflat (TVector t) bs = None"
| "demo_unflat (TMap tk tv) bs = None"
| "demo_unflat (TArray n t) bs =
     map_option (\<lambda>(xs, used). (VArray xs, used)) (read_n (demo_unflat t) n bs)"
| "demo_unflat (TSet t) bs = None"
| "demo_unflat (TComposite ts) bs = None"

definition demo_packer :: packer where
  "demo_packer =
     \<lparr>p_packSize = (\<lambda>l. length (demo_bytes l)),
      p_bytes = demo_bytes,
      p_read = demo_read,
      p_packSizeN = (\<lambda>t xs. length (concat (map demo_flat xs))),
      p_bytesN = (\<lambda>t xs. concat (map demo_flat xs)),
      p_readN = (\<lambda>t n bs. read_n (demo_unflat t) n bs)\<rparr>"

subsection \<open>What a pass over a value does to the state\<close>

text \<open>
  The size that the packer announces for a well-typed value, shape by shape as \<open>encode\<close>
  gives its bytes.
\<close>

primrec announce :: "packer \<Rightarrow> ty \<Rightarrow> val \<Rightarrow> nat" where
  "announce P (TLeaf k) v = (case v of VLeaf l \<Rightarrow> p_packSize P l | _ \<Rightarrow> 0)"
| "announce P (TPtr t) v =
     (case v of
        VPtr p \<Rightarrow> p_packSize P (LBool (p \<noteq> None))
                  + (case p of None \<Rightarrow> 0 | Some (a, x) \<Rightarrow> announce P t x)
      | _ \<Rightarrow> 0)"
| "announce P (TTuple ts) v =
     (case v of VTuple xs \<Rightarrow> sum_list (map2 (\<lambda>f x. f x) (map (announce P) ts) xs) | _ \<Rightarrow> 0)"
| "announce P (TVariant ts) v =
     (case v of
        VVariant i x \<Rightarrow>
          p_packSize P (LSize i) + (if i < length ts then (map (announce P) ts ! i) x else 0)
      | _ \<Rightarrow> 0)"
| "announce P (TOptional t) v =
     (case v of
        VOptional opt \<Rightarrow> p_packSize P (LBool (opt \<noteq> None))
                  + (case opt of None \<Rightarrow> 0 | Some x \<Rightarrow> announce P t x)
      | _ \<Rightarrow> 0)"
| "announce P (TVector t) v =
     (case v of
        VVector xs \<Rightarrow> p_packSize P (LSize (length xs))
                  + (if t \<noteq> TLeaf KBool \<and> is_pod t then p_packSizeN P t xs
                     else sum_list (map (announce P t) xs))
      | _ \<Rightarrow> 0)"
| "announce P (TMap tk tv) v =
     (case v of
        VMap es \<Rightarrow> p_packSize P (LSize (length es))
                  + sum_list (map (\<lambda>e. case e of VTuple [k, x] \<Rightarrow> announce P tk k + announce P tv x
                                        | _ \<Rightarrow> 0) es)
      | _ \<Rightarrow> 0)"
| "announce P (TArray n t) v =
     (case v of
        VArray xs \<Rightarrow> (if is_pod t then p_packSizeN P t xs else sum_list (map (announce P t) xs))
      | _ \<Rightarrow> 0)"
| "announce P (TSet t) v =
     (case v of
        VSet es \<Rightarrow> p_packSize P (LSize (length es)) + sum_list (map (announce P t) es)
      | _ \<Rightarrow> 0)"
| "announce P (TComposite ts) v =
     (case v of VComposite ms \<Rightarrow> sum_list (map2 (\<lambda>f x. f x) (map (announce P) ts) ms) | _ \<Rightarrow> 0)"

text \<open>
  \<open>emit n bs s\<close> is the state after a piece of announced size \<open>n\<close> and bytes \<open>bs\<close> has
  been handled in state \<open>s\<close>: \<open>n\<close> is added to the count in \<open>PACKSIZE\<close> mode, \<open>bs\<close> is
  written at the cursor in \<open>PACK\<close> mode. \<open>room s k\<close> says that \<open>k\<close> more bytes fit into
  the buffer when writing. \<open>wrote x n bs s\<close> is the outcome of a step that handles such a
  piece and returns \<open>x\<close>: it succeeds when there is room and overruns the buffer otherwise.
  \<open>writes P T\<close> is the statement that a size or write pass over any value of type \<open>T\<close>
  is such a step, returning the value unchanged.
\<close>

definition emit :: "nat \<Rightarrow> byte list \<Rightarrow> state \<Rightarrow> state" where
  "emit n bs s =
     (case m_op s of
        PACKSIZE \<Rightarrow> s\<lparr>m_packSize := m_packSize s + n\<rparr>
      | PACK \<Rightarrow> s\<lparr>m_buffer := take (m_position s) (m_buffer s) @ bs
                                @ drop (m_position s + length bs) (m_buffer s),
                   m_position := m_position s + length bs\<rparr>
      | UNPACK \<Rightarrow> s)"

definition room :: "state \<Rightarrow> nat \<Rightarrow> bool" where
  "room s k \<longleftrightarrow> (m_op s = PACK \<longrightarrow> m_position s + k \<le> length (m_buffer s))"

definition wrote :: "'a \<Rightarrow> nat \<Rightarrow> byte list \<Rightarrow> state \<Rightarrow> error + 'a \<times> state" where
  "wrote x n bs s = (if room s (length bs) then Inr (x, emit n bs s) else Inl BufferOverrun)"

definition writes :: "packer \<Rightarrow> ty \<Rightarrow> bool" where
  "writes P T \<longleftrightarrow>
     (\<forall>v s. has_type T v \<longrightarrow> m_op s \<noteq> UNPACK \<longrightarrow> room s 0
        \<longrightarrow> serialize P T v s = wrote v (announce P T v) (encode P T v) s)"




section \<open>Basic facts\<close>

lemma and_then_Inl [simp]: "and_then (Inl e) f = Inl e"
  by (simp add: and_then_def)

lemma and_then_Inr [simp]: "and_then (Inr x) f = f x"
  by (simp add: and_then_def)

text \<open>In \<open>UNPACK\<close> mode the leaf branch does not look at the destination.\<close>

lemma leaf_unpack:
  "m_op s = UNPACK \<Longrightarrow>
   leaf P k v s =
     (case p_read P k (drop (m_position s) (m_buffer s)) of
        None \<Rightarrow> Inl PackerError
      | Some (l, n) \<Rightarrow> Inr (VLeaf l, s\<lparr>m_position := m_position s + n\<rparr>))"
  by (simp add: leaf_def)

lemma leaf_unpack_mode:
  "m_op s = UNPACK \<Longrightarrow> leaf P k v s = Inr (w, s1) \<Longrightarrow>
   m_op s1 = UNPACK \<and> allocated s1 = allocated s \<and> m_buffer s1 = m_buffer s"
  by (auto simp: leaf_unpack split: option.splits)

subsection \<open>make_variant\<close>

lemma make_variant_impl_beyond:
  "Ts \<noteq> [] \<Longrightarrow> Index + length Ts \<le> index \<Longrightarrow>
   make_variant_impl Index Ts index = Inl InvalidVariantIndex"
proof (induction Ts arbitrary: Index)
  case Nil
  then show ?case by simp
next
  case (Cons T Rest)
  show ?case
  proof (cases "Rest = []")
    case True
    with Cons.prems show ?thesis by simp
  next
    case False
    have "make_variant_impl (Index + 1) Rest index = Inl InvalidVariantIndex"
      using Cons.prems False by (intro Cons.IH) simp_all
    with Cons.prems False show ?thesis by simp
  qed
qed

lemma make_variant_impl_within:
  "Index \<le> index \<Longrightarrow> index < Index + length Ts \<Longrightarrow>
   make_variant_impl Index Ts index = Inr (VVariant index (default_val (Ts ! (index - Index))))"
proof (induction Ts arbitrary: Index)
  case Nil
  then show ?case by simp
next
  case (Cons T Rest)
  show ?case
  proof (cases "Index = index")
    case True
    then show ?thesis by simp
  next
    case False
    with Cons.prems have lt: "Index + 1 \<le> index" "index < (Index + 1) + length Rest"
      by simp_all
    then have "Rest \<noteq> []" by auto
    moreover have "make_variant_impl (Index + 1) Rest index
        = Inr (VVariant index (default_val (Rest ! (index - (Index + 1)))))"
      using lt by (rule Cons.IH)
    moreover have "(T # Rest) ! (index - Index) = Rest ! (index - (Index + 1))"
      using lt by (simp add: nth_Cons')
    ultimately show ?thesis using False by simp
  qed
qed

lemma make_variant_beyond:
  "Ts \<noteq> [] \<Longrightarrow> length Ts \<le> index \<Longrightarrow> make_variant Ts index = Inl InvalidVariantIndex"
  by (simp add: make_variant_def make_variant_impl_beyond)

lemma make_variant_within:
  "index < length Ts \<Longrightarrow>
   make_variant Ts index = Inr (VVariant index (default_val (Ts ! index)))"
  by (simp add: make_variant_def make_variant_impl_within)

subsection \<open>Sequencing\<close>

lemma and_then_assoc:
  "and_then (and_then m f) g = and_then m (\<lambda>x. and_then (f x) g)"
  by (cases m) simp_all

lemma and_then_Inr_iff:
  "and_then m f = Inr y \<longleftrightarrow> (\<exists>x. m = Inr x \<and> f x = Inr y)"
  by (cases m) simp_all

lemma and_then_Inl_iff:
  "and_then m f = Inl e \<longleftrightarrow> m = Inl e \<or> (\<exists>x. m = Inr x \<and> f x = Inl e)"
  by (cases m) simp_all

subsection \<open>The insertion loop reads its entries like \<open>for_each\<close> and then inserts them\<close>

lemma insert_loop_for_each:
  "insert_loop P key T n dst s =
     and_then (for_each P T (replicate n (default_val T)) s)
       (\<lambda>(ds, s'). Inr (foldl (\<lambda>acc e. native_insert key e acc) dst ds, s'))"
proof (induction n arbitrary: dst s)
  case 0
  show ?case by simp
next
  case (Suc n)
  show ?case
  proof (cases "serialize P T (default_val T) s")
    case (Inl e)
    then show ?thesis by simp
  next
    case (Inr r)
    obtain entry s1 where r: "r = (entry, s1)" by (cases r)
    show ?thesis
    proof (cases "for_each P T (replicate n (default_val T)) s1")
      case (Inl e)
      with Inr r Suc.IH show ?thesis by simp
    next
      case (Inr r')
      obtain ds s2 where "r' = (ds, s2)" by (cases r')
      with Inr \<open>serialize P T (default_val T) s = Inr r\<close> r Suc.IH show ?thesis by simp
    qed
  qed
qed

lemma native_insert_keeps: "set es \<subseteq> set (native_insert key e es)"
  by (auto simp: native_insert_def)

lemma native_insert_from: "set (native_insert key e es) \<subseteq> insert e (set es)"
  by (auto simp: native_insert_def)

lemma native_insert_keys: "key ` set (native_insert key e es) = insert (key e) (key ` set es)"
  by (auto simp: native_insert_def)

lemma native_insert_distinct:
  "distinct (map key es) \<Longrightarrow> distinct (map key (native_insert key e es))"
  by (auto simp: native_insert_def)

lemma foldl_insert_keeps:
  "set dst \<subseteq> set (foldl (\<lambda>acc e. native_insert key e acc) dst ds)"
proof (induction ds arbitrary: dst)
  case Nil
  show ?case by simp
next
  case (Cons d ds)
  have "set dst \<subseteq> set (native_insert key d dst)" by (rule native_insert_keeps)
  also have "\<dots> \<subseteq> set (foldl (\<lambda>acc e. native_insert key e acc) (native_insert key d dst) ds)"
    by (rule Cons.IH)
  finally show ?case by simp
qed

lemma foldl_insert_from:
  "set (foldl (\<lambda>acc e. native_insert key e acc) dst ds) \<subseteq> set dst \<union> set ds"
proof (induction ds arbitrary: dst)
  case Nil
  show ?case by simp
next
  case (Cons d ds)
  have "set (foldl (\<lambda>acc e. native_insert key e acc) (native_insert key d dst) ds)
          \<subseteq> set (native_insert key d dst) \<union> set ds"
    by (rule Cons.IH)
  also have "\<dots> \<subseteq> insert d (set dst) \<union> set ds"
    using native_insert_from [of key d dst] by auto
  finally show ?case by auto
qed

lemma foldl_insert_keys:
  "key ` set (foldl (\<lambda>acc e. native_insert key e acc) dst ds) = key ` set dst \<union> key ` set ds"
proof (induction ds arbitrary: dst)
  case Nil
  show ?case by simp
next
  case (Cons d ds)
  show ?case by (simp add: Cons.IH native_insert_keys)
qed

lemma foldl_insert_distinct:
  "distinct (map key dst) \<Longrightarrow>
   distinct (map key (foldl (\<lambda>acc e. native_insert key e acc) dst ds))"
proof (induction ds arbitrary: dst)
  case Nil
  then show ?case by simp
next
  case (Cons d ds)
  from Cons.prems have "distinct (map key (native_insert key d dst))"
    by (rule native_insert_distinct)
  then show ?case by (simp add: Cons.IH)
qed

subsection \<open>Allocation\<close>

lemma fresh_not_allocated: "fresh as \<notin> set as"
proof
  assume "fresh as \<in> set as"
  then have "fresh as \<le> Max (set (0 # as))" by simp
  also have "\<dots> = fold max as 0" by (rule Max.set_eq_fold)
  finally show False by (simp add: fresh_def)
qed

subsection \<open>\<open>variadic_call\<close> makes the calls of \<open>tuple_call\<close>\<close>

lemma variadic_call_tuple_call:
  "length Ts = length xs \<Longrightarrow> Ts \<noteq> [] \<Longrightarrow> variadic_call P Ts xs s = tuple_call P Ts xs s"
proof (induction Ts arbitrary: xs s)
  case Nil
  then show ?case by simp
next
  case (Cons T Ts)
  then obtain x xs' where xs: "xs = x # xs'" by (cases xs) auto
  show ?case
  proof (cases "serialize P T x s")
    case (Inl e)
    then show ?thesis by (simp add: xs)
  next
    case (Inr r)
    obtain x' s1 where r: "r = (x', s1)" by (cases r)
    show ?thesis
    proof (cases "Ts = []")
      case True
      with Cons.prems xs have "xs' = []" by simp
      with True Inr r xs show ?thesis by simp
    next
      case False
      with Cons.prems xs have ne: "xs' \<noteq> []" by auto
      have "variadic_call P Ts xs' s1 = tuple_call P Ts xs' s1"
        using Cons.prems xs False by (intro Cons.IH) simp_all
      with Inr r xs ne show ?thesis by simp
    qed
  qed
qed

lemma and_then_drop_value:
  "and_then (and_then m (\<lambda>(xs, s'). Inr (f xs, s'))) (\<lambda>(_, s1). g s1)
     = and_then m (\<lambda>(_, s1). g s1)"
  by (cases m) auto

subsection \<open>Lengths\<close>

lemma for_each_length:
  "for_each P T xs s = Inr (ys, s') \<Longrightarrow> length ys = length xs"
proof (induction xs arbitrary: ys s)
  case Nil
  then show ?case by simp
next
  case (Cons x xs)
  from Cons.prems obtain x' s1 ys' where
    "serialize P T x s = Inr (x', s1)" and r: "for_each P T xs s1 = Inr (ys', s')"
    and ys: "ys = x' # ys'"
    by (auto simp: and_then_Inr_iff)
  from r have "length ys' = length xs" by (rule Cons.IH)
  with ys show ?case by simp
qed

lemma vector_bool_loop_length:
  "vector_bool_loop P n acc s = Inr (ys, s') \<Longrightarrow> length ys = length acc + n"
proof (induction n arbitrary: acc s)
  case 0
  then show ?case by simp
next
  case (Suc n)
  from Suc.prems obtain entry s1 where
    "vector_bool_loop P n (acc @ [entry]) s1 = Inr (ys, s')"
    by (auto simp: and_then_Inr_iff)
  then have "length ys = length (acc @ [entry]) + n" by (rule Suc.IH)
  then show ?case by simp
qed

lemma block_length:
  "block P T xs s = Inr (ys, s') \<Longrightarrow> length ys = length xs"
  by (cases "m_op s")
     (auto simp: block_def packer_pack_def and_then_Inr_iff split: option.splits if_splits)

lemma resize_length [simp]: "length (resize d xs n) = n"
  by (simp add: resize_def)

lemma vector_unpack_length:
  assumes "m_op s = UNPACK"
      and "p_read P KSize (drop (m_position s) (m_buffer s)) = Some (LSize n, used)"
      and "serialize P (TVector T) (VVector xs) s = Inr (v', s')"
  shows "\<exists>ys. v' = VVector ys \<and> length ys = n"
proof -
  let ?s1 = "s\<lparr>m_position := m_position s + used\<rparr>"
  consider (b) "T = TLeaf KBool" | (p) "T \<noteq> TLeaf KBool" "is_pod T"
    | (e) "T \<noteq> TLeaf KBool" "\<not> is_pod T" by blast
  then show ?thesis
  proof cases
    case b
    with assms obtain ys where "vector_bool_loop P n [] ?s1 = Inr (ys, s')" "v' = VVector ys"
      by (auto simp: leaf_unpack and_then_Inr_iff)
    then show ?thesis using vector_bool_loop_length by fastforce
  next
    case p
    with assms obtain ys where
      "block P T (resize (default_val T) xs n) ?s1 = Inr (ys, s')" "v' = VVector ys"
      by (auto simp: leaf_unpack and_then_Inr_iff)
    then show ?thesis using block_length by fastforce
  next
    case e
    with assms obtain ys where
      "for_each P T (resize (default_val T) xs n) ?s1 = Inr (ys, s')" "v' = VVector ys"
      by (auto simp: leaf_unpack and_then_Inr_iff)
    then show ?thesis using for_each_length by fastforce
  qed
qed

section \<open>The size pass and the write pass\<close>

lemma emit_op [simp]: "m_op (emit n bs s) = m_op s"
  by (cases "m_op s") (simp_all add: emit_def)

lemma emit_Nil [simp]: "emit 0 [] s = s"
  by (cases "m_op s") (simp_all add: emit_def)

lemma room_mono: "room s (a + k) \<Longrightarrow> room s a"
  by (auto simp: room_def)

lemma room_emit_iff: "room s (length a) \<Longrightarrow> room (emit n a s) k \<longleftrightarrow> room s (length a + k)"
  by (cases "m_op s") (auto simp: emit_def room_def)

lemma emit_emit: "room s (length a) \<Longrightarrow> emit m b (emit n a s) = emit (n + m) (a @ b) s"
  by (cases "m_op s") (simp_all add: emit_def room_def ac_simps)

lemma wrote_Nil: "room s 0 \<Longrightarrow> wrote x 0 [] s = Inr (x, s)"
  by (simp add: wrote_def)

lemma wrote_map:
  "and_then (wrote x n a s) (\<lambda>(x', s'). Inr (f x', s')) = wrote (f x) n a s"
  by (simp add: wrote_def)

text \<open>Two steps in sequence are one step for the concatenated bytes.\<close>

lemma wrote_then:
  assumes "room s (length a) \<Longrightarrow> G (emit n a s) = wrote y m b (emit n a s)"
  shows "and_then (wrote x n a s) (\<lambda>(x', s1). and_then (G s1) (\<lambda>(y', s2). Inr (h x' y', s2)))
           = wrote (h x y) (n + m) (a @ b) s"
proof (cases "room s (length a)")
  case False
  then have "\<not> room s (length a + length b)" using room_mono by blast
  with False show ?thesis by (simp add: wrote_def)
next
  case True
  from True have "G (emit n a s) = wrote y m b (emit n a s)" by (rule assms)
  with True show ?thesis by (simp add: wrote_def room_emit_iff emit_emit)
qed

lemma leaf_wrote:
  "m_op s \<noteq> UNPACK \<Longrightarrow> leaf P k (VLeaf l) s = wrote (VLeaf l) (p_packSize P l) (p_bytes P l) s"
  by (cases "m_op s") (simp_all add: leaf_def wrote_def emit_def room_def packer_pack_def)

lemma block_wrote:
  "m_op s \<noteq> UNPACK \<Longrightarrow> block P T xs s = wrote xs (p_packSizeN P T xs) (p_bytesN P T xs) s"
  by (cases "m_op s") (simp_all add: block_def wrote_def emit_def room_def packer_pack_def)

lemma writesD:
  "writes P T \<Longrightarrow> has_type T v \<Longrightarrow> m_op s \<noteq> UNPACK \<Longrightarrow> room s 0
   \<Longrightarrow> serialize P T v s = wrote v (announce P T v) (encode P T v) s"
  by (simp add: writes_def)

text \<open>The same on the state reached after a first piece.\<close>

lemma writes_after:
  assumes "writes P T" and "has_type T v" and "m_op s \<noteq> UNPACK" and "room s (length a)"
  shows "serialize P T v (emit n a s) = wrote v (announce P T v) (encode P T v) (emit n a s)"
proof -
  from assms(4) have "room (emit n a s) 0" by (simp add: room_emit_iff)
  with assms(1,2) show ?thesis using assms(3) by (intro writesD) simp_all
qed

lemma for_each_write:
  assumes "writes P T"
  shows "list_all (has_type T) xs \<Longrightarrow> m_op s \<noteq> UNPACK \<Longrightarrow> room s 0
         \<Longrightarrow> for_each P T xs s
             = wrote xs (sum_list (map (announce P T) xs)) (concat (map (encode P T) xs)) s"
proof (induction xs arbitrary: s)
  case Nil
  then show ?case by (simp add: wrote_Nil)
next
  case (Cons x xs)
  let ?a = "encode P T x" and ?b = "concat (map (encode P T) xs)"
  let ?n = "announce P T x" and ?m = "sum_list (map (announce P T) xs)"
  from Cons.prems(1) have tx: "has_type T x" and txs: "list_all (has_type T) xs"
    by (simp_all del: has_type.simps)
  have 1: "serialize P T x s = wrote x ?n ?a s"
    using assms tx Cons.prems(2,3) by (rule writesD)
  have "for_each P T (x # xs) s
          = and_then (wrote x ?n ?a s) (\<lambda>(x', s1).
              and_then (for_each P T xs s1) (\<lambda>(xs', s2). Inr (x' # xs', s2)))"
    by (simp only: for_each.simps 1)
  also have "\<dots> = wrote (x # xs) (?n + ?m) (?a @ ?b) s"
  proof (rule wrote_then)
    assume "room s (length ?a)"
    then have "room (emit ?n ?a s) 0" by (simp add: room_emit_iff)
    with txs show "for_each P T xs (emit ?n ?a s) = wrote xs ?m ?b (emit ?n ?a s)"
      using Cons.prems(2) by (intro Cons.IH) simp_all
  qed
  finally show ?case by simp
qed

lemma tuple_call_write:
  assumes "\<And>T. T \<in> set Ts \<Longrightarrow> writes P T"
  shows "list_all2 (\<lambda>f x. f x) (map has_type Ts) xs \<Longrightarrow> m_op s \<noteq> UNPACK \<Longrightarrow> room s 0
         \<Longrightarrow> tuple_call P Ts xs s
             = wrote xs (sum_list (map2 (\<lambda>f x. f x) (map (announce P) Ts) xs))
                 (concat (map2 (\<lambda>f x. f x) (map (encode P) Ts) xs)) s"
  using assms
proof (induction Ts arbitrary: xs s)
  case Nil
  then show ?case by (simp add: wrote_Nil)
next
  case (Cons T Ts)
  from Cons.prems(1) obtain x xs' where xs: "xs = x # xs'" and tx: "has_type T x"
    and txs: "list_all2 (\<lambda>f x. f x) (map has_type Ts) xs'"
    by (cases xs) auto
  let ?a = "encode P T x" and ?b = "concat (map2 (\<lambda>f x. f x) (map (encode P) Ts) xs')"
  let ?n = "announce P T x" and ?m = "sum_list (map2 (\<lambda>f x. f x) (map (announce P) Ts) xs')"
  have w: "writes P T" by (rule Cons.prems(4)) simp
  have ws: "\<And>T'. T' \<in> set Ts \<Longrightarrow> writes P T'" by (rule Cons.prems(4)) simp
  have 1: "serialize P T x s = wrote x ?n ?a s"
    using w tx Cons.prems(2,3) by (rule writesD)
  have "tuple_call P (T # Ts) (x # xs') s
          = and_then (wrote x ?n ?a s) (\<lambda>(x', s1).
              and_then (tuple_call P Ts xs' s1) (\<lambda>(xs', s2). Inr (x' # xs', s2)))"
    by (simp only: tuple_call.simps 1)
  also have "\<dots> = wrote (x # xs') (?n + ?m) (?a @ ?b) s"
  proof (rule wrote_then)
    assume "room s (length ?a)"
    then have r0: "room (emit ?n ?a s) 0" by (simp add: room_emit_iff)
    have m0: "m_op (emit ?n ?a s) \<noteq> UNPACK" using Cons.prems(2) by simp
    from txs m0 r0 ws
    show "tuple_call P Ts xs' (emit ?n ?a s) = wrote xs' ?m ?b (emit ?n ?a s)"
      by (rule Cons.IH)
  qed
  finally show ?case by (simp add: xs)
qed

lemma has_type_nth:
  "list_all2 (\<lambda>f x. f x) (map has_type Ts) xs \<Longrightarrow> i < length Ts \<Longrightarrow> has_type (Ts ! i) (xs ! i)"
  by (simp add: list_all2_conv_all_nth)

lemma entry_encode:
  "(case e of VTuple [k, x] \<Rightarrow> has_type K k \<and> has_type V x | _ \<Rightarrow> False)
   \<Longrightarrow> (case e of VTuple [k, x] \<Rightarrow> encode P K k @ encode P V x | _ \<Rightarrow> [])
       = encode P (TTuple [K, V]) e"
  by (auto split: val.splits list.splits)

lemma entry_announce:
  "(case e of VTuple [k, x] \<Rightarrow> has_type K k \<and> has_type V x | _ \<Rightarrow> False)
   \<Longrightarrow> (case e of VTuple [k, x] \<Rightarrow> announce P K k + announce P V x | _ \<Rightarrow> 0)
       = announce P (TTuple [K, V]) e"
  by (auto split: val.splits list.splits)

lemma entry_has_type:
  "(case e of VTuple [k, x] \<Rightarrow> has_type K k \<and> has_type V x | _ \<Rightarrow> False)
   \<longleftrightarrow> has_type (TTuple [K, V]) e"
  by (auto split: val.splits list.splits simp: list_all2_Cons1)

lemma entries_encode:
  assumes "list_all (has_type (TTuple [K, V])) es"
  shows "map (\<lambda>e. case e of VTuple [k, x] \<Rightarrow> encode P K k @ encode P V x | _ \<Rightarrow> []) es
           = map (encode P (TTuple [K, V])) es"
proof (rule map_cong [OF refl])
  fix e
  assume "e \<in> set es"
  with assms have "has_type (TTuple [K, V]) e" unfolding list_all_iff by blast
  then have "case e of VTuple [k, x] \<Rightarrow> has_type K k \<and> has_type V x | _ \<Rightarrow> False"
    by (simp only: entry_has_type)
  then show "(case e of VTuple [k, x] \<Rightarrow> encode P K k @ encode P V x | _ \<Rightarrow> [])
               = encode P (TTuple [K, V]) e"
    by (rule entry_encode)
qed

lemma entries_announce:
  assumes "list_all (has_type (TTuple [K, V])) es"
  shows "map (\<lambda>e. case e of VTuple [k, x] \<Rightarrow> announce P K k + announce P V x | _ \<Rightarrow> 0) es
           = map (announce P (TTuple [K, V])) es"
proof (rule map_cong [OF refl])
  fix e
  assume "e \<in> set es"
  with assms have "has_type (TTuple [K, V]) e" unfolding list_all_iff by blast
  then have "case e of VTuple [k, x] \<Rightarrow> has_type K k \<and> has_type V x | _ \<Rightarrow> False"
    by (simp only: entry_has_type)
  then show "(case e of VTuple [k, x] \<Rightarrow> announce P K k + announce P V x | _ \<Rightarrow> 0)
               = announce P (TTuple [K, V]) e"
    by (rule entry_announce)
qed

lemma writes_TLeaf: "writes P (TLeaf k)"
  unfolding writes_def
proof (intro allI impI)
  fix v and s :: state
  assume t: "has_type (TLeaf k) v" and m: "m_op s \<noteq> UNPACK"
  from t obtain l where v: "v = VLeaf l" by (cases v) auto
  from m have "leaf P k (VLeaf l) s = wrote (VLeaf l) (p_packSize P l) (p_bytes P l) s"
    by (rule leaf_wrote)
  then show "serialize P (TLeaf k) v s
               = wrote v (announce P (TLeaf k) v) (encode P (TLeaf k) v) s"
    by (simp add: v)
qed

lemma writes_TTuple:
  assumes "\<And>T. T \<in> set Ts \<Longrightarrow> writes P T"
  shows "writes P (TTuple Ts)"
  unfolding writes_def
proof (intro allI impI)
  fix v and s :: state
  assume t: "has_type (TTuple Ts) v" and m: "m_op s \<noteq> UNPACK" and r: "room s 0"
  from t obtain xs where v: "v = VTuple xs"
    and txs: "list_all2 (\<lambda>f x. f x) (map has_type Ts) xs"
    by (cases v) auto
  from tuple_call_write [OF assms txs m r]
  show "serialize P (TTuple Ts) v s
          = wrote v (announce P (TTuple Ts) v) (encode P (TTuple Ts) v) s"
    by (simp add: v wrote_map)
qed

lemma writes_TComposite:
  assumes "\<And>T. T \<in> set Ts \<Longrightarrow> writes P T"
  shows "writes P (TComposite Ts)"
  unfolding writes_def
proof (intro allI impI)
  fix v and s :: state
  assume t: "has_type (TComposite Ts) v" and m: "m_op s \<noteq> UNPACK" and r: "room s 0"
  from t obtain xs where v: "v = VComposite xs"
    and txs: "list_all2 (\<lambda>f x. f x) (map has_type Ts) xs"
    by (cases v) auto
  from tuple_call_write [OF assms txs m r]
  show "serialize P (TComposite Ts) v s
          = wrote v (announce P (TComposite Ts) v) (encode P (TComposite Ts) v) s"
    by (simp add: v wrote_map)
qed

text \<open>A leading size, index or flag followed by a payload.\<close>

lemma prefixed_write:
  assumes "m_op s \<noteq> UNPACK"
      and "room s (length (p_bytes P l))
           \<Longrightarrow> G (emit (p_packSize P l) (p_bytes P l) s)
               = wrote y m b (emit (p_packSize P l) (p_bytes P l) s)"
  shows "and_then (leaf P k (VLeaf l) s) (\<lambda>(x', s1). and_then (G s1) (\<lambda>(y', s2). Inr (h y', s2)))
           = wrote (h y) (p_packSize P l + m) (p_bytes P l @ b) s"
proof -
  have "and_then (wrote (VLeaf l) (p_packSize P l) (p_bytes P l) s)
          (\<lambda>(x', s1). and_then (G s1) (\<lambda>(y', s2). Inr ((\<lambda>x' y'. h y') x' y', s2)))
        = wrote ((\<lambda>x' y'. h y') (VLeaf l) y) (p_packSize P l + m) (p_bytes P l @ b) s"
    using assms(2) by (rule wrote_then)
  then show ?thesis by (simp add: leaf_wrote [OF assms(1)])
qed

lemma unprefixed_write:
  assumes "m_op s \<noteq> UNPACK"
  shows "and_then (leaf P k (VLeaf l) s) (\<lambda>(x', s1). Inr (y, s1))
           = wrote y (p_packSize P l) (p_bytes P l) s"
  by (simp add: leaf_wrote [OF assms] wrote_def)

lemma writes_TPtr:
  assumes "writes P T"
  shows "writes P (TPtr T)"
  unfolding writes_def
proof (intro allI impI)
  fix v and s :: state
  assume t: "has_type (TPtr T) v" and m: "m_op s \<noteq> UNPACK" and r: "room s 0"
  from t obtain p where v: "v = VPtr p" by (cases v) auto
  show "serialize P (TPtr T) v s = wrote v (announce P (TPtr T) v) (encode P (TPtr T) v) s"
  proof (cases p)
    case None
    have "serialize P (TPtr T) (VPtr None) s
            = and_then (leaf P KBool (VLeaf (LBool False)) s) (\<lambda>(x', s1). Inr (VPtr None, s1))"
      using m by (auto simp: leaf_wrote wrote_def)
    also have "\<dots> = wrote (VPtr None) (p_packSize P (LBool False)) (p_bytes P (LBool False)) s"
      using m by (rule unprefixed_write)
    finally show ?thesis by (simp add: v None)
  next
    case (Some ap)
    obtain a x where ap: "ap = (a, x)" by (cases ap)
    let ?f = "p_bytes P (LBool True)" and ?n = "p_packSize P (LBool True)"
    from t v Some ap have tx: "has_type T x" by simp
    have "serialize P (TPtr T) (VPtr (Some (a, x))) s
            = and_then (leaf P KBool (VLeaf (LBool True)) s) (\<lambda>(x', s1).
                and_then (serialize P T x s1) (\<lambda>(y', s2). Inr (VPtr (Some (a, y')), s2)))"
      using m by (auto simp: leaf_wrote wrote_def)
    also have "\<dots> = wrote (VPtr (Some (a, x))) (?n + announce P T x) (?f @ encode P T x) s"
      using m
    proof (rule prefixed_write)
      assume "room s (length ?f)"
      with assms tx m
      show "serialize P T x (emit ?n ?f s) = wrote x (announce P T x) (encode P T x) (emit ?n ?f s)"
        by (rule writes_after)
    qed
    finally show ?thesis by (simp add: v Some ap)
  qed
qed

lemma writes_TOptional:
  assumes "writes P T"
  shows "writes P (TOptional T)"
  unfolding writes_def
proof (intro allI impI)
  fix v and s :: state
  assume t: "has_type (TOptional T) v" and m: "m_op s \<noteq> UNPACK" and r: "room s 0"
  from t obtain opt where v: "v = VOptional opt" by (cases v) auto
  show "serialize P (TOptional T) v s
          = wrote v (announce P (TOptional T) v) (encode P (TOptional T) v) s"
  proof (cases opt)
    case None
    have "serialize P (TOptional T) (VOptional None) s
            = and_then (leaf P KBool (VLeaf (LBool False)) s)
                (\<lambda>(x', s1). Inr (VOptional None, s1))"
      using m by simp
    also have "\<dots> = wrote (VOptional None) (p_packSize P (LBool False))
                        (p_bytes P (LBool False)) s"
      using m by (rule unprefixed_write)
    finally show ?thesis by (simp add: v None)
  next
    case (Some x)
    let ?f = "p_bytes P (LBool True)" and ?n = "p_packSize P (LBool True)"
    from t v Some have tx: "has_type T x" by simp
    have "serialize P (TOptional T) (VOptional (Some x)) s
            = and_then (leaf P KBool (VLeaf (LBool True)) s) (\<lambda>(x', s1).
                and_then (serialize P T x s1) (\<lambda>(y', s2). Inr (VOptional (Some y'), s2)))"
      using m by simp
    also have "\<dots> = wrote (VOptional (Some x)) (?n + announce P T x) (?f @ encode P T x) s"
      using m
    proof (rule prefixed_write)
      assume "room s (length ?f)"
      with assms tx m
      show "serialize P T x (emit ?n ?f s) = wrote x (announce P T x) (encode P T x) (emit ?n ?f s)"
        by (rule writes_after)
    qed
    finally show ?thesis by (simp add: v Some)
  qed
qed

lemma writes_TVariant:
  assumes "\<And>T. T \<in> set Ts \<Longrightarrow> writes P T"
  shows "writes P (TVariant Ts)"
  unfolding writes_def
proof (intro allI impI)
  fix v and s :: state
  assume t: "has_type (TVariant Ts) v" and m: "m_op s \<noteq> UNPACK" and r: "room s 0"
  from t obtain i x where v: "v = VVariant i x" and i: "i < length Ts"
    and tx: "has_type (Ts ! i) x"
    by (cases v) auto
  let ?f = "p_bytes P (LSize i)" and ?n = "p_packSize P (LSize i)"
  have w: "writes P (Ts ! i)" using i by (intro assms) simp
  have "serialize P (TVariant Ts) (VVariant i x) s
          = and_then (leaf P KSize (VLeaf (LSize i)) s) (\<lambda>(x', s1).
              and_then (serialize P (Ts ! i) x s1) (\<lambda>(y', s2). Inr (VVariant i y', s2)))"
    using m i by simp
  also have "\<dots> = wrote (VVariant i x) (?n + announce P (Ts ! i) x)
                      (?f @ encode P (Ts ! i) x) s"
    using m
  proof (rule prefixed_write)
    assume "room s (length ?f)"
    with w tx m
    show "serialize P (Ts ! i) x (emit ?n ?f s)
            = wrote x (announce P (Ts ! i) x) (encode P (Ts ! i) x) (emit ?n ?f s)"
      by (rule writes_after)
  qed
  finally show "serialize P (TVariant Ts) v s
                  = wrote v (announce P (TVariant Ts) v) (encode P (TVariant Ts) v) s"
    using i by (simp add: v)
qed

lemma for_each_after:
  assumes "writes P T" and "list_all (has_type T) xs" and "m_op s \<noteq> UNPACK"
      and "room s (length a)"
  shows "for_each P T xs (emit n a s)
           = wrote xs (sum_list (map (announce P T) xs)) (concat (map (encode P T) xs))
               (emit n a s)"
proof -
  from assms(4) have "room (emit n a s) 0" by (simp add: room_emit_iff)
  with assms(1,2) show ?thesis using assms(3) by (intro for_each_write) simp_all
qed

lemma writes_TVector:
  assumes "writes P T"
  shows "writes P (TVector T)"
  unfolding writes_def
proof (intro allI impI)
  fix v and s :: state
  assume t: "has_type (TVector T) v" and m: "m_op s \<noteq> UNPACK" and r: "room s 0"
  from t obtain xs where v: "v = VVector xs" and txs: "list_all (has_type T) xs"
    by (cases v) auto
  let ?f = "p_bytes P (LSize (length xs))" and ?n = "p_packSize P (LSize (length xs))"
  show "serialize P (TVector T) v s
          = wrote v (announce P (TVector T) v) (encode P (TVector T) v) s"
  proof (cases "T \<noteq> TLeaf KBool \<and> is_pod T")
    case True
    have "serialize P (TVector T) (VVector xs) s
            = and_then (leaf P KSize (VLeaf (LSize (length xs))) s) (\<lambda>(x', s1).
                and_then (block P T xs s1) (\<lambda>(y', s2). Inr (VVector y', s2)))"
      using m True by simp
    also have "\<dots> = wrote (VVector xs) (?n + p_packSizeN P T xs) (?f @ p_bytesN P T xs) s"
      using m
    proof (rule prefixed_write)
      show "block P T xs (emit ?n ?f s)
              = wrote xs (p_packSizeN P T xs) (p_bytesN P T xs) (emit ?n ?f s)"
        using m by (intro block_wrote) simp
    qed
    finally show ?thesis using True by (simp add: v)
  next
    case False
    have "serialize P (TVector T) (VVector xs) s
            = and_then (leaf P KSize (VLeaf (LSize (length xs))) s) (\<lambda>(x', s1).
                and_then (for_each P T xs s1) (\<lambda>(y', s2). Inr (VVector y', s2)))"
      using m False by auto
    also have "\<dots> = wrote (VVector xs) (?n + sum_list (map (announce P T) xs))
                        (?f @ concat (map (encode P T) xs)) s"
      using m
    proof (rule prefixed_write)
      assume "room s (length ?f)"
      with assms txs m
      show "for_each P T xs (emit ?n ?f s)
              = wrote xs (sum_list (map (announce P T) xs)) (concat (map (encode P T) xs))
                  (emit ?n ?f s)"
        by (rule for_each_after)
    qed
    finally show ?thesis using False by (auto simp: v)
  qed
qed

lemma writes_TArray:
  assumes "writes P T"
  shows "writes P (TArray N T)"
  unfolding writes_def
proof (intro allI impI)
  fix v and s :: state
  assume t: "has_type (TArray N T) v" and m: "m_op s \<noteq> UNPACK" and r: "room s 0"
  from t obtain xs where v: "v = VArray xs" and txs: "list_all (has_type T) xs"
    by (cases v) auto
  show "serialize P (TArray N T) v s
          = wrote v (announce P (TArray N T) v) (encode P (TArray N T) v) s"
  proof (cases "is_pod T")
    case True
    from m have "block P T xs s = wrote xs (p_packSizeN P T xs) (p_bytesN P T xs) s"
      by (rule block_wrote)
    with True show ?thesis by (simp add: v wrote_map)
  next
    case False
    from for_each_write [OF assms txs m r] False show ?thesis by (simp add: v wrote_map)
  qed
qed

lemma writes_TSet:
  assumes "writes P T"
  shows "writes P (TSet T)"
  unfolding writes_def
proof (intro allI impI)
  fix v and s :: state
  assume t: "has_type (TSet T) v" and m: "m_op s \<noteq> UNPACK" and r: "room s 0"
  from t obtain es where v: "v = VSet es" and txs: "list_all (has_type T) es"
    by (cases v) auto
  let ?f = "p_bytes P (LSize (length es))" and ?n = "p_packSize P (LSize (length es))"
  have "serialize P (TSet T) (VSet es) s
          = and_then (leaf P KSize (VLeaf (LSize (length es))) s) (\<lambda>(x', s1).
              and_then (for_each P T es s1) (\<lambda>(y', s2). Inr (VSet y', s2)))"
    using m by simp
  also have "\<dots> = wrote (VSet es) (?n + sum_list (map (announce P T) es))
                      (?f @ concat (map (encode P T) es)) s"
    using m
  proof (rule prefixed_write)
    assume "room s (length ?f)"
    with assms txs m
    show "for_each P T es (emit ?n ?f s)
            = wrote es (sum_list (map (announce P T) es)) (concat (map (encode P T) es))
                (emit ?n ?f s)"
      by (rule for_each_after)
  qed
  finally show "serialize P (TSet T) v s
                  = wrote v (announce P (TSet T) v) (encode P (TSet T) v) s"
    by (simp add: v)
qed

lemma writes_TMap:
  assumes "writes P K" and "writes P V"
  shows "writes P (TMap K V)"
  unfolding writes_def
proof (intro allI impI)
  fix v and s :: state
  assume t: "has_type (TMap K V) v" and m: "m_op s \<noteq> UNPACK" and r: "room s 0"
  from t obtain es where v: "v = VMap es"
    and tes: "list_all (\<lambda>e. case e of VTuple [k, x] \<Rightarrow> has_type K k \<and> has_type V x
                              | _ \<Rightarrow> False) es"
    by (cases v) auto
  from tes have txs: "list_all (has_type (TTuple [K, V])) es"
    by (simp only: entry_has_type)
  let ?E = "TTuple [K, V]"
  have w: "writes P ?E"
    using assms by (intro writes_TTuple) auto
  let ?f = "p_bytes P (LSize (length es))" and ?n = "p_packSize P (LSize (length es))"
  let ?b = "concat (map (encode P ?E) es)" and ?k = "sum_list (map (announce P ?E) es)"
  have "encode P (TMap K V) (VMap es)
          = ?f @ concat (map (\<lambda>e. case e of VTuple [k, x] \<Rightarrow> encode P K k @ encode P V x
                                       | _ \<Rightarrow> []) es)"
    by simp
  then have enc: "encode P (TMap K V) (VMap es) = ?f @ ?b"
    by (simp only: entries_encode [OF txs])
  have "announce P (TMap K V) (VMap es)
          = ?n + sum_list (map (\<lambda>e. case e of VTuple [k, x] \<Rightarrow> announce P K k + announce P V x
                                         | _ \<Rightarrow> 0) es)"
    by simp
  then have ann: "announce P (TMap K V) (VMap es) = ?n + ?k"
    by (simp only: entries_announce [OF txs])
  have "serialize P (TMap K V) (VMap es) s
          = and_then (leaf P KSize (VLeaf (LSize (length es))) s) (\<lambda>(x', s1).
              and_then (for_each P ?E es s1) (\<lambda>(y', s2). Inr (VMap y', s2)))"
    using m by (simp del: serialize.simps(2))
  also have "\<dots> = wrote (VMap es) (?n + ?k) (?f @ ?b) s"
    using m
  proof (rule prefixed_write)
    assume "room s (length ?f)"
    with w txs m
    show "for_each P ?E es (emit ?n ?f s) = wrote es ?k ?b (emit ?n ?f s)"
      by (rule for_each_after)
  qed
  finally show "serialize P (TMap K V) v s
                  = wrote v (announce P (TMap K V) v) (encode P (TMap K V) v) s"
    unfolding v by (simp only: enc ann)
qed

lemma writes_all: "writes P T"
proof (induction T)
  case (TLeaf k)
  show ?case by (rule writes_TLeaf)
next
  case (TPtr T)
  then show ?case by (rule writes_TPtr)
next
  case (TTuple Ts)
  then show ?case by (intro writes_TTuple)
next
  case (TVariant Ts)
  then show ?case by (intro writes_TVariant)
next
  case (TOptional T)
  then show ?case by (rule writes_TOptional)
next
  case (TVector T)
  then show ?case by (rule writes_TVector)
next
  case (TMap K V)
  then show ?case by (intro writes_TMap)
next
  case (TArray N T)
  then show ?case by (rule writes_TArray)
next
  case (TSet T)
  then show ?case by (rule writes_TSet)
next
  case (TComposite Ts)
  then show ?case by (intro writes_TComposite)
qed

section \<open>The read pass\<close>
























subsection \<open>Pointer-free types are rigid\<close>














subsection \<open>Inserting entries with new keys\<close>







section \<open>What \<open>pack\<close> leaves in the buffer\<close>

text \<open>
  \<open>pack\<close> of a well-typed value: the size pass announces \<open>announce P T v\<close>, the buffer
  is resized to that, and the write pass puts the bytes of the value at its start, unless
  they do not fit.
\<close>

lemma pack_eq:
  assumes "has_type T v"
  shows "pack P T v s =
           (if length (encode P T v) \<le> announce P T v
            then Inr (s\<lparr>m_op := PACK, m_packSize := announce P T v,
                       m_position := length (encode P T v),
                       m_buffer := encode P T v
                         @ drop (length (encode P T v))
                             (resize 0 (m_buffer s) (announce P T v))\<rparr>)
            else Inl BufferOverrun)"
proof -
  let ?e = "encode P T v" and ?n = "announce P T v"
  let ?s0 = "s\<lparr>m_op := PACKSIZE, m_packSize := 0\<rparr>"
  let ?s1 = "s\<lparr>m_op := PACKSIZE, m_packSize := ?n\<rparr>"
  let ?s2 = "?s1\<lparr>m_position := 0, m_buffer := resize 0 (m_buffer ?s1) (m_packSize ?s1),
                m_op := PACK\<rparr>"
  have w: "writes P T" by (rule writes_all)
  have "serialize P T v ?s0 = wrote v ?n ?e ?s0"
    using w assms by (rule writesD) (simp_all add: room_def)
  then have 1: "serialize P T v ?s0 = Inr (v, ?s1)"
    by (simp add: wrote_def room_def emit_def)
  have 2: "serialize P T v ?s2 = wrote v ?n ?e ?s2"
    using w assms by (rule writesD) (simp_all add: room_def)
  have 3: "room ?s2 (length ?e) \<longleftrightarrow> length ?e \<le> ?n"
    by (simp add: room_def)
  have 4: "emit ?n ?e ?s2
             = s\<lparr>m_op := PACK, m_packSize := ?n, m_position := length ?e,
                 m_buffer := ?e @ drop (length ?e) (resize 0 (m_buffer s) ?n)\<rparr>"
    by (simp add: emit_def)
  have 5: "and_then (serialize P T v ?s2) (\<lambda>(_, s2). Inr s2)
             = (if length ?e \<le> ?n then Inr (emit ?n ?e ?s2) else Inl BufferOverrun)"
  proof (cases "length ?e \<le> ?n")
    case True
    with 3 have "room ?s2 (length ?e)" by blast
    then have "serialize P T v ?s2 = Inr (v, emit ?n ?e ?s2)"
      unfolding 2 wrote_def by (simp only: if_True)
    then show ?thesis using True by (simp only: and_then_Inr prod.case if_True)
  next
    case False
    with 3 have "\<not> room ?s2 (length ?e)" by blast
    then have "serialize P T v ?s2 = Inl BufferOverrun"
      unfolding 2 wrote_def by (simp only: if_False)
    then show ?thesis using False by (simp only: and_then_Inl if_False)
  qed
  have "pack P T v s = and_then (serialize P T v ?s2) (\<lambda>(_, s2). Inr s2)"
    unfolding pack_def by (simp only: 1 and_then_Inr prod.case)
  then show ?thesis by (simp only: 5 4)
qed

subsection \<open>Under the size law the announced size is the number of bytes\<close>

lemma sizes_same:
  assumes "\<And>v. has_type T v \<Longrightarrow> announce P T v = length (encode P T v)"
  shows "list_all (has_type T) xs
         \<Longrightarrow> sum_list (map (announce P T) xs) = length (concat (map (encode P T) xs))"
proof (induction xs)
  case Nil
  show ?case by simp
next
  case (Cons x xs)
  from Cons.prems have tx: "has_type T x" and txs: "list_all (has_type T) xs"
    by (simp_all del: has_type.simps)
  from tx have "announce P T x = length (encode P T x)" by (rule assms)
  moreover from txs
  have "sum_list (map (announce P T) xs) = length (concat (map (encode P T) xs))"
    by (rule Cons.IH)
  ultimately show ?case by simp
qed

lemma sizes_each:
  assumes "\<And>T v. T \<in> set Ts \<Longrightarrow> has_type T v \<Longrightarrow> announce P T v = length (encode P T v)"
  shows "list_all2 (\<lambda>f x. f x) (map has_type Ts) xs
         \<Longrightarrow> sum_list (map2 (\<lambda>f x. f x) (map (announce P) Ts) xs)
             = length (concat (map2 (\<lambda>f x. f x) (map (encode P) Ts) xs))"
  using assms
proof (induction Ts arbitrary: xs)
  case Nil
  show ?case by simp
next
  case (Cons T Ts)
  from Cons.prems(1) obtain x xs' where xs: "xs = x # xs'" and tx: "has_type T x"
    and txs: "list_all2 (\<lambda>f x. f x) (map has_type Ts) xs'"
    by (cases xs) auto
  have 1: "announce P T x = length (encode P T x)"
    using tx by (intro Cons.prems(2)) simp
  have 2: "sum_list (map2 (\<lambda>f x. f x) (map (announce P) Ts) xs')
             = length (concat (map2 (\<lambda>f x. f x) (map (encode P) Ts) xs'))"
  proof (rule Cons.IH [OF txs])
    fix T' v
    assume "T' \<in> set Ts" and "has_type T' v"
    then show "announce P T' v = length (encode P T' v)" by (intro Cons.prems(2)) simp_all
  qed
  from 1 2 show ?case by (simp add: xs)
qed

lemma announce_sizes:
  assumes "packer_sizes P"
  shows "has_type T v \<Longrightarrow> announce P T v = length (encode P T v)"
proof (induction T arbitrary: v)
  case (TLeaf k)
  then obtain l where "v = VLeaf l" by (cases v) auto
  with assms show ?case by (simp add: packer_sizes_def)
next
  case (TPtr T)
  from TPtr.prems obtain p where v: "v = VPtr p" by (cases v) auto
  show ?case
  proof (cases p)
    case None
    with assms v show ?thesis by (simp add: packer_sizes_def)
  next
    case (Some ap)
    obtain a x where ap: "ap = (a, x)" by (cases ap)
    from TPtr.prems v Some ap have "has_type T x" by simp
    then have "announce P T x = length (encode P T x)" by (rule TPtr.IH)
    with assms v Some ap show ?thesis by (simp add: packer_sizes_def)
  qed
next
  case (TTuple Ts)
  from TTuple.prems obtain xs where v: "v = VTuple xs"
    and txs: "list_all2 (\<lambda>f x. f x) (map has_type Ts) xs"
    by (cases v) auto
  from sizes_each [OF TTuple.IH txs] show ?case by (simp add: v)
next
  case (TVariant Ts)
  from TVariant.prems obtain i x where v: "v = VVariant i x" and i: "i < length Ts"
    and tx: "has_type (Ts ! i) x"
    by (cases v) auto
  have "announce P (Ts ! i) x = length (encode P (Ts ! i) x)"
    using i tx by (intro TVariant.IH) simp_all
  with assms v i show ?case by (simp add: packer_sizes_def)
next
  case (TOptional T)
  from TOptional.prems obtain opt where v: "v = VOptional opt" by (cases v) auto
  show ?case
  proof (cases opt)
    case None
    with assms v show ?thesis by (simp add: packer_sizes_def)
  next
    case (Some x)
    with TOptional.prems v have "has_type T x" by simp
    then have "announce P T x = length (encode P T x)" by (rule TOptional.IH)
    with assms v Some show ?thesis by (simp add: packer_sizes_def)
  qed
next
  case (TVector T)
  from TVector.prems obtain xs where v: "v = VVector xs" and txs: "list_all (has_type T) xs"
    by (cases v) auto
  have l: "p_packSize P (LSize (length xs)) = length (p_bytes P (LSize (length xs)))"
    using assms by (simp add: packer_sizes_def)
  show ?case
  proof (cases "T \<noteq> TLeaf KBool \<and> is_pod T")
    case True
    with assms txs have "p_packSizeN P T xs = length (p_bytesN P T xs)"
      by (simp add: packer_sizes_def)
    with True l show ?thesis by (simp add: v)
  next
    case False
    from sizes_same [OF TVector.IH txs] False l show ?thesis by (auto simp: v)
  qed
next
  case (TMap K V)
  from TMap.prems obtain es where v: "v = VMap es"
    and tes: "list_all (\<lambda>e. case e of VTuple [k, x] \<Rightarrow> has_type K k \<and> has_type V x
                              | _ \<Rightarrow> False) es"
    by (cases v) auto
  from tes have txs: "list_all (has_type (TTuple [K, V])) es"
    by (simp only: entry_has_type)
  let ?E = "TTuple [K, V]"
  have l: "p_packSize P (LSize (length es)) = length (p_bytes P (LSize (length es)))"
    using assms by (simp add: packer_sizes_def)
  have e: "\<And>e. has_type ?E e \<Longrightarrow> announce P ?E e = length (encode P ?E e)"
  proof -
    fix e
    assume "has_type ?E e"
    then obtain k x where "e = VTuple [k, x]" "has_type K k" "has_type V x"
      by (cases e) (auto simp: list_all2_Cons1)
    then show "announce P ?E e = length (encode P ?E e)"
      using TMap.IH(1) [of k] TMap.IH(2) [of x] by simp
  qed
  have "encode P (TMap K V) v
          = p_bytes P (LSize (length es))
            @ concat (map (\<lambda>e. case e of VTuple [k, x] \<Rightarrow> encode P K k @ encode P V x
                                 | _ \<Rightarrow> []) es)"
    by (simp add: v)
  then have enc: "encode P (TMap K V) v
                    = p_bytes P (LSize (length es)) @ concat (map (encode P ?E) es)"
    by (simp only: entries_encode [OF txs])
  have "announce P (TMap K V) v
          = p_packSize P (LSize (length es))
            + sum_list (map (\<lambda>e. case e of VTuple [k, x] \<Rightarrow> announce P K k + announce P V x
                                   | _ \<Rightarrow> 0) es)"
    by (simp add: v)
  then have ann: "announce P (TMap K V) v
                    = p_packSize P (LSize (length es)) + sum_list (map (announce P ?E) es)"
    by (simp only: entries_announce [OF txs])
  from sizes_same [of ?E P es, OF e txs] l show ?case
    by (simp only: enc ann length_append)
next
  case (TArray N T)
  from TArray.prems obtain xs where v: "v = VArray xs" and txs: "list_all (has_type T) xs"
    by (cases v) auto
  show ?case
  proof (cases "is_pod T")
    case True
    with assms txs have "p_packSizeN P T xs = length (p_bytesN P T xs)"
      by (simp add: packer_sizes_def)
    with True show ?thesis by (simp add: v)
  next
    case False
    from sizes_same [OF TArray.IH txs] False show ?thesis by (simp add: v)
  qed
next
  case (TSet T)
  from TSet.prems obtain es where v: "v = VSet es" and txs: "list_all (has_type T) es"
    by (cases v) auto
  have l: "p_packSize P (LSize (length es)) = length (p_bytes P (LSize (length es)))"
    using assms by (simp add: packer_sizes_def)
  from sizes_same [OF TSet.IH txs] l show ?case by (simp add: v)
next
  case (TComposite Ts)
  from TComposite.prems obtain xs where v: "v = VComposite xs"
    and txs: "list_all2 (\<lambda>f x. f x) (map has_type Ts) xs"
    by (cases v) auto
  from sizes_each [OF TComposite.IH txs] show ?case by (simp add: v)
qed

lemma pack_result:
  assumes "packer_sizes P" and "has_type T v"
  shows "pack P T v s
           = Inr (s\<lparr>m_op := PACK, m_packSize := length (encode P T v),
                    m_position := length (encode P T v), m_buffer := encode P T v\<rparr>)"
proof -
  have "announce P T v = length (encode P T v)" using assms by (rule announce_sizes)
  then show ?thesis by (simp add: pack_eq [OF assms(2)] resize_def)
qed


section \<open>The demonstration packer keeps its contract\<close>

lemma packer_sizes_demo: "packer_sizes demo_packer"
  by (simp add: packer_sizes_def demo_packer_def)



lemma length_unary [simp]: "length (unary n) = Suc n"
  by (simp add: unary_def)






section \<open>An alternative index out of range aborts the call\<close>

text \<open>
  Claim C3. While unpacking a \<open>std::variant\<close> with \<open>n\<close> alternatives, an index read from
  the buffer that is \<open>n\<close> or more makes the call end with the error thrown by
  \<open>make_variant\<close>: no alternative is built and nothing after the index is read (an
  aborted call returns neither a value nor a state). This holds wherever the variant sits
  in the value being unpacked, and so for \<open>unpack\<close> of a variant, which starts at
  position \<open>0\<close>.
\<close>

theorem variant_index_out_of_range:
  assumes "Ts \<noteq> []" and "length Ts \<le> index"
  shows "(m_op s = UNPACK
            \<and> p_read P KSize (drop (m_position s) (m_buffer s)) = Some (LSize index, n)
          \<longrightarrow> serialize P (TVariant Ts) (VVariant i x) s = Inl InvalidVariantIndex)
       \<and> (p_read P KSize (m_buffer s) = Some (LSize index, n)
          \<longrightarrow> unpack P (TVariant Ts) (VVariant i x) s = Inl InvalidVariantIndex)"
  using assms by (simp add: unpack_def leaf_unpack make_variant_beyond)

text \<open>The index field holds \<open>99\<close>, three alternatives are known.\<close>

theorem variant_index_out_of_range_witness:
  "[TLeaf KInt, TLeaf KStr, TLeaf KBool] \<noteq> []
   \<and> length [TLeaf KInt, TLeaf KStr, TLeaf KBool] \<le> 99
   \<and> p_read demo_packer KSize (m_buffer (Serializer\<lparr>m_buffer := unary 99 @ [0, 1, 0]\<rparr>))
       = Some (LSize 99, 100)
   \<and> unpack demo_packer (TVariant [TLeaf KInt, TLeaf KStr, TLeaf KBool])
        (VVariant 0 (VLeaf (LInt 0))) (Serializer\<lparr>m_buffer := unary 99 @ [0, 1, 0]\<rparr>)
       = Inl InvalidVariantIndex"
proof -
  have rd: "p_read demo_packer KSize
              (m_buffer (Serializer\<lparr>m_buffer := unary 99 @ [0, 1, 0]\<rparr>))
            = Some (LSize 99, 100)"
    by code_simp
  from variant_index_out_of_range
         [of "[TLeaf KInt, TLeaf KStr, TLeaf KBool]" 99
             "Serializer\<lparr>m_buffer := unary 99 @ [0, 1, 0]\<rparr>" demo_packer 100
             0 "VLeaf (LInt 0)"] rd
  show ?thesis by simp
qed

section \<open>Unpacking an optional\<close>

text \<open>
  Claim C4, amended. Unpacking a \<open>std::optional<T>\<close> reads the has-value flag. If the
  flag is true, a value-initialised \<open>T\<close> is read into and assigned to the destination,
  whatever the destination held. If the flag is false, the destination is left as it was:
  empty if it was empty (as a freshly default-constructed optional is), still holding its
  prior value otherwise.
\<close>

theorem optional_unpack:
  assumes "m_op s = UNPACK"
  shows "(p_read P KBool (drop (m_position s) (m_buffer s)) = Some (LBool True, n)
          \<longrightarrow> serialize P (TOptional T) (VOptional opt) s
              = and_then (serialize P T (default_val T) (s\<lparr>m_position := m_position s + n\<rparr>))
                  (\<lambda>(res, s2). Inr (VOptional (Some res), s2)))
       \<and> (p_read P KBool (drop (m_position s) (m_buffer s)) = Some (LBool False, n)
          \<longrightarrow> serialize P (TOptional T) (VOptional opt) s
              = Inr (VOptional opt, s\<lparr>m_position := m_position s + n\<rparr>))"
  using assms by (simp add: leaf_unpack)

text \<open>The flag is true and an \<open>int\<close> follows; the flag is false.\<close>

theorem optional_unpack_witness:
  "m_op (Serializer\<lparr>m_op := UNPACK, m_buffer := [1, 0, 1, 1, 0]\<rparr>) = UNPACK
   \<and> serialize demo_packer (TOptional (TLeaf KInt)) (VOptional (Some (VLeaf (LInt 5))))
        (Serializer\<lparr>m_op := UNPACK, m_buffer := [1, 0, 1, 1, 0]\<rparr>)
       = Inr (VOptional (Some (VLeaf (LInt 2))),
              \<lparr>m_op = UNPACK, m_packSize = 0, m_position = 5, m_buffer = [1, 0, 1, 1, 0],
                 allocated = []\<rparr>)
   \<and> m_op (Serializer\<lparr>m_op := UNPACK, m_buffer := [0]\<rparr>) = UNPACK
   \<and> serialize demo_packer (TOptional (TLeaf KInt)) (VOptional None)
        (Serializer\<lparr>m_op := UNPACK, m_buffer := [0]\<rparr>)
       = Inr (VOptional None,
              \<lparr>m_op = UNPACK, m_packSize = 0, m_position = 1, m_buffer = [0], allocated = []\<rparr>)"
proof -
  let ?s1 = "Serializer\<lparr>m_op := UNPACK, m_buffer := [1, 0, 1, 1, 0]\<rparr>"
  let ?s0 = "Serializer\<lparr>m_op := UNPACK, m_buffer := [0]\<rparr>"
  have m1: "m_op ?s1 = UNPACK" and m0: "m_op ?s0 = UNPACK" by (simp_all add: Serializer_def)
  have r1: "p_read demo_packer KBool (drop (m_position ?s1) (m_buffer ?s1)) = Some (LBool True, 1)"
    by code_simp
  have r0: "p_read demo_packer KBool (drop (m_position ?s0) (m_buffer ?s0)) = Some (LBool False, 1)"
    by code_simp
  have p1: "and_then (serialize demo_packer (TLeaf KInt) (default_val (TLeaf KInt))
                        (?s1\<lparr>m_position := m_position ?s1 + 1\<rparr>))
              (\<lambda>(res, s2). Inr (VOptional (Some res), s2))
            = Inr (VOptional (Some (VLeaf (LInt 2))),
              \<lparr>m_op = UNPACK, m_packSize = 0, m_position = 5, m_buffer = [1, 0, 1, 1, 0],
                 allocated = []\<rparr>)"
    by code_simp
  have p0: "?s0\<lparr>m_position := m_position ?s0 + 1\<rparr>
            = \<lparr>m_op = UNPACK, m_packSize = 0, m_position = 1, m_buffer = [0], allocated = []\<rparr>"
    by (simp add: Serializer_def)
  from optional_unpack [OF m1, of demo_packer 1 "TLeaf KInt" "Some (VLeaf (LInt 5))"]
       optional_unpack [OF m0, of demo_packer 1 "TLeaf KInt" None]
       m1 m0 r1 r0 p1 p0
  show ?thesis by simp
qed

text \<open>
  The claim as first stated also has the destination empty after a false flag when it
  held a value before. The handler has no branch for a false flag: the destination
  \<open>std::optional<int>\<close> holding \<open>5\<close> still holds \<open>5\<close> after reading a false flag.
\<close>

theorem optional_unpack_counterexample:
  "p_read demo_packer KBool (m_buffer (Serializer\<lparr>m_buffer := [0]\<rparr>)) = Some (LBool False, 1)
   \<and> unpack demo_packer (TOptional (TLeaf KInt)) (VOptional (Some (VLeaf (LInt 5))))
        (Serializer\<lparr>m_buffer := [0]\<rparr>)
       = Inr (VOptional (Some (VLeaf (LInt 5))),
              \<lparr>m_op = UNPACK, m_packSize = 0, m_position = 1, m_buffer = [0], allocated = []\<rparr>)"
  by code_simp

section \<open>Unpacking a null pointer\<close>

text \<open>
  Claim C5, amended. Unpacking a smart pointer reads the non-null flag. When the flag is
  false and the destination is null when the call begins (as a freshly default-constructed
  pointer is), the destination is null afterwards and nothing but the flag is read.
\<close>

theorem ptr_unpack_null:
  assumes "m_op s = UNPACK"
      and "p_read P KBool (drop (m_position s) (m_buffer s)) = Some (LBool False, n)"
  shows "serialize P (TPtr T1) (VPtr None) s
           = Inr (VPtr None, s\<lparr>m_position := m_position s + n\<rparr>)"
  using assms by (simp add: leaf_unpack)

theorem ptr_unpack_null_witness:
  "m_op (Serializer\<lparr>m_op := UNPACK, m_buffer := [0, 0, 1]\<rparr>) = UNPACK
   \<and> p_read demo_packer KBool [0, 0, 1] = Some (LBool False, 1)
   \<and> serialize demo_packer (TPtr (TLeaf KInt)) (VPtr None)
        (Serializer\<lparr>m_op := UNPACK, m_buffer := [0, 0, 1]\<rparr>)
       = Inr (VPtr None,
              \<lparr>m_op = UNPACK, m_packSize = 0, m_position = 1, m_buffer = [0, 0, 1],
                 allocated = []\<rparr>)"
proof -
  let ?s = "Serializer\<lparr>m_op := UNPACK, m_buffer := [0, 0, 1]\<rparr>"
  have m: "m_op ?s = UNPACK" by (simp add: Serializer_def)
  have r: "p_read demo_packer KBool (drop (m_position ?s) (m_buffer ?s)) = Some (LBool False, 1)"
    by code_simp
  have r': "p_read demo_packer KBool [0, 0, 1] = Some (LBool False, 1)"
    by code_simp
  have e: "?s\<lparr>m_position := m_position ?s + 1\<rparr>
            = \<lparr>m_op = UNPACK, m_packSize = 0, m_position = 1, m_buffer = [0, 0, 1],
                 allocated = []\<rparr>"
    by (simp add: Serializer_def)
  from ptr_unpack_null [OF m r, of "TLeaf KInt"] m r' e
  show ?thesis by simp
qed

text \<open>
  The claim as first stated has the pointer null after a false flag for every prior state.
  \<open>ptr\<close> resets the pointer only when the flag is true, and then tests the pointer, not
  the flag: a destination that owns an \<open>int\<close> \<open>5\<close> at address \<open>7\<close> keeps its pointee
  after a false flag, and the bytes that follow the flag are read into it.
\<close>

theorem ptr_unpack_null_counterexample:
  "p_read demo_packer KBool (m_buffer (Serializer\<lparr>m_buffer := [0, 0, 1, 1, 0]\<rparr>))
     = Some (LBool False, 1)
   \<and> unpack demo_packer (TPtr (TLeaf KInt)) (VPtr (Some (7, VLeaf (LInt 5))))
        (Serializer\<lparr>m_buffer := [0, 0, 1, 1, 0], allocated := [7]\<rparr>)
       = Inr (VPtr (Some (7, VLeaf (LInt 2))),
              \<lparr>m_op = UNPACK, m_packSize = 0, m_position = 5, m_buffer = [0, 0, 1, 1, 0],
                 allocated = [7]\<rparr>)"
  by code_simp

section \<open>Unpacking a non-null pointer\<close>

text \<open>
  Claim C10. When the non-null flag reads true, \<open>ptr\<close> resets the destination to a newly
  allocated default-constructed pointee and reads into that, whether the destination was
  null or not. The result is that of unpacking the pointee type into a default value,
  stored at the new address: it does not mention the prior pointer, so it is the same for
  every prior pointer, in particular the same as for a null destination. The new address
  is none of the addresses allocated before the call, so the decoded pointer aliases no
  pointer that existed then.
\<close>

theorem ptr_unpack_fresh:
  assumes "m_op s = UNPACK"
      and "p_read P KBool (drop (m_position s) (m_buffer s)) = Some (LBool True, n)"
  shows "serialize P (TPtr T1) (VPtr p) s
           = and_then (serialize P T1 (default_val T1)
                         (s\<lparr>m_position := m_position s + n,
                            allocated := fresh (allocated s) # allocated s\<rparr>))
               (\<lambda>(pointee, s3). Inr (VPtr (Some (fresh (allocated s), pointee)), s3))
         \<and> serialize P (TPtr T1) (VPtr p) s = serialize P (TPtr T1) (VPtr None) s
         \<and> fresh (allocated s) \<notin> set (allocated s)"
  using assms by (simp add: leaf_unpack fresh_not_allocated)

text \<open>A destination owning \<open>5\<close> at address \<open>7\<close>; the stream holds a true flag and \<open>2\<close>.\<close>

theorem ptr_unpack_fresh_witness:
  "m_op (Serializer\<lparr>m_op := UNPACK, m_buffer := [1, 0, 1, 1, 0], allocated := [7]\<rparr>) = UNPACK
   \<and> p_read demo_packer KBool [1, 0, 1, 1, 0] = Some (LBool True, 1)
   \<and> serialize demo_packer (TPtr (TLeaf KInt)) (VPtr (Some (7, VLeaf (LInt 5))))
        (Serializer\<lparr>m_op := UNPACK, m_buffer := [1, 0, 1, 1, 0], allocated := [7]\<rparr>)
       = Inr (VPtr (Some (8, VLeaf (LInt 2))),
              \<lparr>m_op = UNPACK, m_packSize = 0, m_position = 5, m_buffer = [1, 0, 1, 1, 0],
                 allocated = [8, 7]\<rparr>)
   \<and> serialize demo_packer (TPtr (TLeaf KInt)) (VPtr (Some (7, VLeaf (LInt 5))))
        (Serializer\<lparr>m_op := UNPACK, m_buffer := [1, 0, 1, 1, 0], allocated := [7]\<rparr>)
       = serialize demo_packer (TPtr (TLeaf KInt)) (VPtr None)
        (Serializer\<lparr>m_op := UNPACK, m_buffer := [1, 0, 1, 1, 0], allocated := [7]\<rparr>)
   \<and> (8::nat) \<notin> set [7]"
proof -
  let ?s = "Serializer\<lparr>m_op := UNPACK, m_buffer := [1, 0, 1, 1, 0], allocated := [7]\<rparr>"
  have m: "m_op ?s = UNPACK" by (simp add: Serializer_def)
  have r: "p_read demo_packer KBool (drop (m_position ?s) (m_buffer ?s)) = Some (LBool True, 1)"
    by code_simp
  have r': "p_read demo_packer KBool [1, 0, 1, 1, 0] = Some (LBool True, 1)"
    by code_simp
  have f: "fresh (allocated ?s) = 8" by code_simp
  have c: "and_then (serialize demo_packer (TLeaf KInt) (default_val (TLeaf KInt))
                       (?s\<lparr>m_position := m_position ?s + 1, allocated := 8 # allocated ?s\<rparr>))
             (\<lambda>(pointee, s3). Inr (VPtr (Some (8, pointee)), s3))
           = Inr (VPtr (Some (8, VLeaf (LInt 2))),
              \<lparr>m_op = UNPACK, m_packSize = 0, m_position = 5, m_buffer = [1, 0, 1, 1, 0],
                 allocated = [8, 7]\<rparr>)"
    by code_simp
  note t = ptr_unpack_fresh [OF m r, of "TLeaf KInt" "Some (7, VLeaf (LInt 5))"]
  from t have "serialize demo_packer (TPtr (TLeaf KInt)) (VPtr (Some (7, VLeaf (LInt 5)))) ?s
      = and_then (serialize demo_packer (TLeaf KInt) (default_val (TLeaf KInt))
                       (?s\<lparr>m_position := m_position ?s + 1,
                           allocated := fresh (allocated ?s) # allocated ?s\<rparr>))
             (\<lambda>(pointee, s3). Inr (VPtr (Some (fresh (allocated ?s), pointee)), s3))"
    by (rule conjunct1)
  then have a: "serialize demo_packer (TPtr (TLeaf KInt)) (VPtr (Some (7, VLeaf (LInt 5)))) ?s
      = Inr (VPtr (Some (8, VLeaf (LInt 2))),
              \<lparr>m_op = UNPACK, m_packSize = 0, m_position = 5, m_buffer = [1, 0, 1, 1, 0],
                 allocated = [8, 7]\<rparr>)"
    by (simp only: f c)
  from t have b: "serialize demo_packer (TPtr (TLeaf KInt)) (VPtr (Some (7, VLeaf (LInt 5)))) ?s
      = serialize demo_packer (TPtr (TLeaf KInt)) (VPtr None) ?s"
    by (rule conjunct2 [THEN conjunct1])
  from t have "fresh (allocated ?s) \<notin> set (allocated ?s)"
    by (rule conjunct2 [THEN conjunct2])
  then have d: "(8::nat) \<notin> set [7]" by (simp add: f)
  from m r' a b d show ?thesis by (intro conjI)
qed

section \<open>The variadic pack is the pack of a tuple\<close>

text \<open>
  Claim C8. For values \<open>v1, ..., vn\<close> (one per static type, and at least one, as the
  variadic overload needs), \<open>pack(v1, ..., vn)\<close> ends in the same state, so with the same
  buffer byte for byte, as \<open>pack\<close> of the tuple \<open>(v1, ..., vn)\<close>. The tuple handler makes
  the calls of \<open>variadic_call\<close> on the elements in declared order and nothing else:
  no arity is written.
\<close>

theorem variadic_pack_is_tuple_pack:
  assumes "length Ts = length xs" and "Ts \<noteq> []"
  shows "pack_variadic P Ts xs s = pack P (TTuple Ts) (VTuple xs) s
       \<and> serialize P (TTuple Ts) (VTuple xs) s
           = and_then (variadic_call P Ts xs s) (\<lambda>(xs', s'). Inr (VTuple xs', s'))"
  using assms
  by (simp add: pack_variadic_def pack_def variadic_call_tuple_call and_then_drop_value)

text \<open>The count \<open>2\<close> and the names \<open>["A", "BB"]\<close>.\<close>

theorem variadic_pack_is_tuple_pack_witness:
  "length [TLeaf KInt, TVector (TLeaf KStr)]
     = length [VLeaf (LInt 2), VVector [VLeaf (LStr ''A''), VLeaf (LStr ''BB'')]]
   \<and> [TLeaf KInt, TVector (TLeaf KStr)] \<noteq> []
   \<and> pack_variadic demo_packer [TLeaf KInt, TVector (TLeaf KStr)]
        [VLeaf (LInt 2), VVector [VLeaf (LStr ''A''), VLeaf (LStr ''BB'')]] Serializer
       = Inr \<lparr>m_op = PACK, m_packSize = 15, m_position = 15,
               m_buffer = [0, 1, 1, 0, 1, 1, 0, 1, 0, 65, 1, 1, 0, 66, 66], allocated = []\<rparr>
   \<and> pack demo_packer (TTuple [TLeaf KInt, TVector (TLeaf KStr)])
        (VTuple [VLeaf (LInt 2), VVector [VLeaf (LStr ''A''), VLeaf (LStr ''BB'')]]) Serializer
       = Inr \<lparr>m_op = PACK, m_packSize = 15, m_position = 15,
               m_buffer = [0, 1, 1, 0, 1, 1, 0, 1, 0, 65, 1, 1, 0, 66, 66], allocated = []\<rparr>"
proof -
  let ?Ts = "[TLeaf KInt, TVector (TLeaf KStr)]"
  let ?xs = "[VLeaf (LInt 2), VVector [VLeaf (LStr ''A''), VLeaf (LStr ''BB'')]]"
  have len: "length ?Ts = length ?xs" and ne: "?Ts \<noteq> []" by simp_all
  have p: "pack demo_packer (TTuple ?Ts) (VTuple ?xs) Serializer
       = Inr \<lparr>m_op = PACK, m_packSize = 15, m_position = 15,
               m_buffer = [0, 1, 1, 0, 1, 1, 0, 1, 0, 65, 1, 1, 0, 66, 66], allocated = []\<rparr>"
    by code_simp
  have "pack_variadic demo_packer ?Ts ?xs Serializer
          = pack demo_packer (TTuple ?Ts) (VTuple ?xs) Serializer"
    using variadic_pack_is_tuple_pack [OF len ne, of demo_packer Serializer]
    by (rule conjunct1)
  then have v: "pack_variadic demo_packer ?Ts ?xs Serializer
       = Inr \<lparr>m_op = PACK, m_packSize = 15, m_position = 15,
               m_buffer = [0, 1, 1, 0, 1, 1, 0, 1, 0, 65, 1, 1, 0, 66, 66], allocated = []\<rparr>"
    by (simp only: p)
  from len ne v p show ?thesis by (intro conjI)
qed

section \<open>Unpacking a map or a set merges into the destination\<close>

text \<open>
  Claim C9. Unpacking a map or a set never clears the destination. When the stream holds
  the count \<open>n\<close> and the \<open>n\<close> decoded entries are \<open>ds\<close>, the call returns a container
  in which every entry of the destination is still present, every entry comes from the
  destination or from \<open>ds\<close>, and the keys are those of the destination together with those
  of \<open>ds\<close>. A vector, in contrast, has exactly \<open>n\<close> elements after the call, whatever its
  size was before.
\<close>

theorem associative_unpack_merges:
  assumes "m_op s = UNPACK"
      and "p_read P KSize (drop (m_position s) (m_buffer s)) = Some (LSize n, used)"
  shows "(for_each P (TTuple [K, V]) (replicate n (default_val (TTuple [K, V])))
            (s\<lparr>m_position := m_position s + used\<rparr>) = Inr (ds, s2)
          \<longrightarrow> (\<exists>es'. serialize P (TMap K V) (VMap dst) s = Inr (VMap es', s2)
                 \<and> set dst \<subseteq> set es' \<and> set es' \<subseteq> set dst \<union> set ds
                 \<and> key_of ` set es' = key_of ` set dst \<union> key_of ` set ds))
       \<and> (for_each P T (replicate n (default_val T))
            (s\<lparr>m_position := m_position s + used\<rparr>) = Inr (ds', s3)
          \<longrightarrow> (\<exists>es'. serialize P (TSet T) (VSet dst') s = Inr (VSet es', s3)
                 \<and> set es' = set dst' \<union> set ds'))
       \<and> (serialize P (TVector T) (VVector xs) s = Inr (v', s')
          \<longrightarrow> (\<exists>ys. v' = VVector ys \<and> length ys = n))"
proof (intro conjI impI)
  assume rd: "for_each P (TTuple [K, V]) (replicate n (default_val (TTuple [K, V])))
            (s\<lparr>m_position := m_position s + used\<rparr>) = Inr (ds, s2)"
  let ?es = "foldl (\<lambda>acc e. native_insert key_of e acc) dst ds"
  have "serialize P (TMap K V) (VMap dst) s = Inr (VMap ?es, s2)"
    using assms rd by (simp add: leaf_unpack insert_loop_for_each)
  moreover have "set dst \<subseteq> set ?es" by (rule foldl_insert_keeps)
  moreover have "set ?es \<subseteq> set dst \<union> set ds" by (rule foldl_insert_from)
  moreover have "key_of ` set ?es = key_of ` set dst \<union> key_of ` set ds"
    by (rule foldl_insert_keys)
  ultimately show "\<exists>es'. serialize P (TMap K V) (VMap dst) s = Inr (VMap es', s2)
      \<and> set dst \<subseteq> set es' \<and> set es' \<subseteq> set dst \<union> set ds
      \<and> key_of ` set es' = key_of ` set dst \<union> key_of ` set ds"
    by blast
next
  assume rd: "for_each P T (replicate n (default_val T))
            (s\<lparr>m_position := m_position s + used\<rparr>) = Inr (ds', s3)"
  let ?es = "foldl (\<lambda>acc e. native_insert (\<lambda>e. e) e acc) dst' ds'"
  have "serialize P (TSet T) (VSet dst') s = Inr (VSet ?es, s3)"
    using assms rd by (simp add: leaf_unpack insert_loop_for_each)
  moreover have "set ?es = set dst' \<union> set ds'"
    using foldl_insert_keys [of "\<lambda>e. e" dst' ds'] by simp
  ultimately show "\<exists>es'. serialize P (TSet T) (VSet dst') s = Inr (VSet es', s3)
      \<and> set es' = set dst' \<union> set ds'"
    by blast
next
  assume "serialize P (TVector T) (VVector xs) s = Inr (v', s')"
  with assms show "\<exists>ys. v' = VVector ys \<and> length ys = n"
    by (rule vector_unpack_length)
qed

text \<open>
  The stream holds the count \<open>1\<close>, then the \<open>int\<close> \<open>2\<close> and the string \<open>"y"\<close>. It is
  read into a map that holds \<open>1 \<mapsto> "x"\<close>, into a set that holds \<open>4\<close>, and into a vector
  of three elements.
\<close>

theorem associative_unpack_merges_witness:
  "m_op (Serializer\<lparr>m_op := UNPACK, m_buffer := [1, 0, 0, 1, 1, 0, 1, 0, 121]\<rparr>) = UNPACK
   \<and> p_read demo_packer KSize [1, 0, 0, 1, 1, 0, 1, 0, 121] = Some (LSize 1, 2)
   \<and> serialize demo_packer (TMap (TLeaf KInt) (TLeaf KStr))
        (VMap [VTuple [VLeaf (LInt 1), VLeaf (LStr ''x'')]])
        (Serializer\<lparr>m_op := UNPACK, m_buffer := [1, 0, 0, 1, 1, 0, 1, 0, 121]\<rparr>)
       = Inr (VMap [VTuple [VLeaf (LInt 1), VLeaf (LStr ''x'')],
                    VTuple [VLeaf (LInt 2), VLeaf (LStr ''y'')]],
              \<lparr>m_op = UNPACK, m_packSize = 0, m_position = 9,
                 m_buffer = [1, 0, 0, 1, 1, 0, 1, 0, 121], allocated = []\<rparr>)
   \<and> serialize demo_packer (TSet (TLeaf KInt)) (VSet [VLeaf (LInt 4)])
        (Serializer\<lparr>m_op := UNPACK, m_buffer := [1, 0, 0, 1, 1, 0, 1, 0, 121]\<rparr>)
       = Inr (VSet [VLeaf (LInt 4), VLeaf (LInt 2)],
              \<lparr>m_op = UNPACK, m_packSize = 0, m_position = 6,
                 m_buffer = [1, 0, 0, 1, 1, 0, 1, 0, 121], allocated = []\<rparr>)
   \<and> serialize demo_packer (TVector (TLeaf KInt))
        (VVector [VLeaf (LInt 7), VLeaf (LInt 8), VLeaf (LInt 9)])
        (Serializer\<lparr>m_op := UNPACK, m_buffer := [1, 0, 0, 1, 1, 0, 1, 0, 121]\<rparr>)
       = Inr (VVector [VLeaf (LInt 2)],
              \<lparr>m_op = UNPACK, m_packSize = 0, m_position = 6,
                 m_buffer = [1, 0, 0, 1, 1, 0, 1, 0, 121], allocated = []\<rparr>)"
proof -
  let ?s = "Serializer\<lparr>m_op := UNPACK, m_buffer := [1, 0, 0, 1, 1, 0, 1, 0, 121]\<rparr>"
  let ?s2 = "\<lparr>m_op = UNPACK, m_packSize = 0, m_position = 9,
                 m_buffer = [1, 0, 0, 1, 1, 0, 1, 0, 121], allocated = []\<rparr>"
  let ?s3 = "\<lparr>m_op = UNPACK, m_packSize = 0, m_position = 6,
                 m_buffer = [1, 0, 0, 1, 1, 0, 1, 0, 121], allocated = []\<rparr>"
  let ?dst = "[VTuple [VLeaf (LInt 1), VLeaf (LStr ''x'')]]"
  let ?ds = "[VTuple [VLeaf (LInt 2), VLeaf (LStr ''y'')]]"
  let ?xs = "[VLeaf (LInt 7), VLeaf (LInt 8), VLeaf (LInt 9)]"
  have m: "m_op ?s = UNPACK" by (simp add: Serializer_def)
  have r: "p_read demo_packer KSize (drop (m_position ?s) (m_buffer ?s)) = Some (LSize 1, 2)"
    by code_simp
  have r': "p_read demo_packer KSize [1, 0, 0, 1, 1, 0, 1, 0, 121] = Some (LSize 1, 2)"
    by code_simp
  have f1: "for_each demo_packer (TTuple [TLeaf KInt, TLeaf KStr])
              (replicate 1 (default_val (TTuple [TLeaf KInt, TLeaf KStr])))
              (?s\<lparr>m_position := m_position ?s + 2\<rparr>) = Inr (?ds, ?s2)"
    by code_simp
  have f2: "for_each demo_packer (TLeaf KInt) (replicate 1 (default_val (TLeaf KInt)))
              (?s\<lparr>m_position := m_position ?s + 2\<rparr>) = Inr ([VLeaf (LInt 2)], ?s3)"
    by code_simp
  have cm: "serialize demo_packer (TMap (TLeaf KInt) (TLeaf KStr)) (VMap ?dst) ?s
              = Inr (VMap (?dst @ ?ds), ?s2)"
    by code_simp
  have cs: "serialize demo_packer (TSet (TLeaf KInt)) (VSet [VLeaf (LInt 4)]) ?s
              = Inr (VSet [VLeaf (LInt 4), VLeaf (LInt 2)], ?s3)"
    by code_simp
  have cv: "serialize demo_packer (TVector (TLeaf KInt)) (VVector ?xs) ?s
              = Inr (VVector [VLeaf (LInt 2)], ?s3)"
    by code_simp
  note t = associative_unpack_merges [OF m r, of "TLeaf KInt" "TLeaf KStr" ?ds ?s2 ?dst
      "TLeaf KInt" "[VLeaf (LInt 2)]" ?s3 "[VLeaf (LInt 4)]" ?xs "VVector [VLeaf (LInt 2)]" ?s3]
  from t f1 have "\<exists>es'. serialize demo_packer (TMap (TLeaf KInt) (TLeaf KStr)) (VMap ?dst) ?s
                     = Inr (VMap es', ?s2) \<and> set ?dst \<subseteq> set es'"
    by blast
  with cm have a: "serialize demo_packer (TMap (TLeaf KInt) (TLeaf KStr)) (VMap ?dst) ?s
                     = Inr (VMap (?dst @ ?ds), ?s2)"
    by simp
  from m r' a cs cv show ?thesis by simp
qed

section \<open>Duplicate keys in the stream collapse\<close>

text \<open>
  Claim C6. Unpacking a map or a set reads the count and inserts each decoded entry with
  the container's own insert. Whatever the \<open>n\<close> decoded entries \<open>ds\<close> are, the call
  returns (no error comes from a repeated key), the keys of the result are pairwise
  distinct and every decoded key is among them: a key that the stream carries twice has
  exactly one entry. In particular a stream of two entries with the same key, read into
  an empty container, gives the container that holds the first of them
  (\<open>insert\<close> does not replace).
\<close>

theorem duplicate_keys_collapse:
  assumes "m_op s = UNPACK"
      and "p_read P KSize (drop (m_position s) (m_buffer s)) = Some (LSize n, used)"
  shows "(for_each P (TTuple [K, V]) (replicate n (default_val (TTuple [K, V])))
            (s\<lparr>m_position := m_position s + used\<rparr>) = Inr (ds, s2)
          \<and> distinct (map key_of dst)
          \<longrightarrow> (\<exists>es'. serialize P (TMap K V) (VMap dst) s = Inr (VMap es', s2)
                 \<and> distinct (map key_of es') \<and> key_of ` set ds \<subseteq> key_of ` set es'))
       \<and> (for_each P T (replicate n (default_val T))
            (s\<lparr>m_position := m_position s + used\<rparr>) = Inr (ds', s3)
          \<and> distinct dst'
          \<longrightarrow> (\<exists>es'. serialize P (TSet T) (VSet dst') s = Inr (VSet es', s3)
                 \<and> distinct es' \<and> set ds' \<subseteq> set es'))
       \<and> (n = 2
          \<and> serialize P (TTuple [K, V]) (default_val (TTuple [K, V]))
              (s\<lparr>m_position := m_position s + used\<rparr>) = Inr (e1, s4)
          \<and> serialize P (TTuple [K, V]) (default_val (TTuple [K, V])) s4 = Inr (e2, s5)
          \<and> key_of e1 = key_of e2
          \<longrightarrow> serialize P (TMap K V) (VMap []) s = Inr (VMap [e1], s5))
       \<and> (n = 2
          \<and> serialize P T (default_val T) (s\<lparr>m_position := m_position s + used\<rparr>) = Inr (x1, s6)
          \<and> serialize P T (default_val T) s6 = Inr (x2, s7)
          \<and> x1 = x2
          \<longrightarrow> serialize P (TSet T) (VSet []) s = Inr (VSet [x1], s7))"
proof (intro conjI impI; (elim conjE)?)
  assume rd: "for_each P (TTuple [K, V]) (replicate n (default_val (TTuple [K, V])))
            (s\<lparr>m_position := m_position s + used\<rparr>) = Inr (ds, s2)"
    and d: "distinct (map key_of dst)"
  let ?es = "foldl (\<lambda>acc e. native_insert key_of e acc) dst ds"
  have "serialize P (TMap K V) (VMap dst) s = Inr (VMap ?es, s2)"
    using assms rd by (simp add: leaf_unpack insert_loop_for_each)
  moreover have "distinct (map key_of ?es)" using d by (rule foldl_insert_distinct)
  moreover have "key_of ` set ds \<subseteq> key_of ` set ?es" by (simp add: foldl_insert_keys)
  ultimately show "\<exists>es'. serialize P (TMap K V) (VMap dst) s = Inr (VMap es', s2)
                 \<and> distinct (map key_of es') \<and> key_of ` set ds \<subseteq> key_of ` set es'"
    by blast
next
  assume rd: "for_each P T (replicate n (default_val T))
            (s\<lparr>m_position := m_position s + used\<rparr>) = Inr (ds', s3)"
    and d: "distinct dst'"
  let ?es = "foldl (\<lambda>acc e. native_insert (\<lambda>e. e) e acc) dst' ds'"
  have "serialize P (TSet T) (VSet dst') s = Inr (VSet ?es, s3)"
    using assms rd by (simp add: leaf_unpack insert_loop_for_each)
  moreover have "distinct ?es"
    using d foldl_insert_distinct [of "\<lambda>e. e" dst' ds'] by simp
  moreover have "set ds' \<subseteq> set ?es"
    using foldl_insert_keys [of "\<lambda>e. e" dst' ds'] by auto
  ultimately show "\<exists>es'. serialize P (TSet T) (VSet dst') s = Inr (VSet es', s3)
                 \<and> distinct es' \<and> set ds' \<subseteq> set es'"
    by blast
next
  assume "n = 2"
    and "serialize P (TTuple [K, V]) (default_val (TTuple [K, V]))
              (s\<lparr>m_position := m_position s + used\<rparr>) = Inr (e1, s4)"
    and "serialize P (TTuple [K, V]) (default_val (TTuple [K, V])) s4 = Inr (e2, s5)"
    and "key_of e1 = key_of e2"
  with assms show "serialize P (TMap K V) (VMap []) s = Inr (VMap [e1], s5)"
    by (simp add: leaf_unpack numeral_2_eq_2 native_insert_def del: serialize.simps(2))
next
  assume "n = 2"
    and "serialize P T (default_val T) (s\<lparr>m_position := m_position s + used\<rparr>) = Inr (x1, s6)"
    and "serialize P T (default_val T) s6 = Inr (x2, s7)"
    and "x1 = x2"
  with assms show "serialize P (TSet T) (VSet []) s = Inr (VSet [x1], s7)"
    by (simp add: leaf_unpack numeral_2_eq_2 native_insert_def)
qed

text \<open>
  The map stream holds the count \<open>2\<close> and the entries \<open>3 \<mapsto> "a"\<close>, \<open>3 \<mapsto> "b"\<close>;
  the set stream holds the count \<open>2\<close> and \<open>3\<close>, \<open>3\<close>.
\<close>

theorem duplicate_keys_collapse_witness:
  "m_op (Serializer\<lparr>m_op := UNPACK,
           m_buffer := [1, 1, 0, 0, 1, 1, 1, 0, 1, 0, 97, 0, 1, 1, 1, 0, 1, 0, 98]\<rparr>) = UNPACK
   \<and> p_read demo_packer KSize [1, 1, 0, 0, 1, 1, 1, 0, 1, 0, 97, 0, 1, 1, 1, 0, 1, 0, 98]
       = Some (LSize 2, 3)
   \<and> key_of (VTuple [VLeaf (LInt 3), VLeaf (LStr ''a'')])
       = key_of (VTuple [VLeaf (LInt 3), VLeaf (LStr ''b'')])
   \<and> serialize demo_packer (TMap (TLeaf KInt) (TLeaf KStr)) (VMap [])
        (Serializer\<lparr>m_op := UNPACK,
           m_buffer := [1, 1, 0, 0, 1, 1, 1, 0, 1, 0, 97, 0, 1, 1, 1, 0, 1, 0, 98]\<rparr>)
       = Inr (VMap [VTuple [VLeaf (LInt 3), VLeaf (LStr ''a'')]],
              \<lparr>m_op = UNPACK, m_packSize = 0, m_position = 19,
                 m_buffer = [1, 1, 0, 0, 1, 1, 1, 0, 1, 0, 97, 0, 1, 1, 1, 0, 1, 0, 98],
                 allocated = []\<rparr>)
   \<and> m_op (Serializer\<lparr>m_op := UNPACK,
           m_buffer := [1, 1, 0, 0, 1, 1, 1, 0, 0, 1, 1, 1, 0]\<rparr>) = UNPACK
   \<and> p_read demo_packer KSize [1, 1, 0, 0, 1, 1, 1, 0, 0, 1, 1, 1, 0] = Some (LSize 2, 3)
   \<and> serialize demo_packer (TSet (TLeaf KInt)) (VSet [])
        (Serializer\<lparr>m_op := UNPACK,
           m_buffer := [1, 1, 0, 0, 1, 1, 1, 0, 0, 1, 1, 1, 0]\<rparr>)
       = Inr (VSet [VLeaf (LInt 3)],
              \<lparr>m_op = UNPACK, m_packSize = 0, m_position = 13,
                 m_buffer = [1, 1, 0, 0, 1, 1, 1, 0, 0, 1, 1, 1, 0], allocated = []\<rparr>)"
proof -
  let ?bm = "[1, 1, 0, 0, 1, 1, 1, 0, 1, 0, 97, 0, 1, 1, 1, 0, 1, 0, 98] :: byte list"
  let ?bs = "[1, 1, 0, 0, 1, 1, 1, 0, 0, 1, 1, 1, 0] :: byte list"
  let ?sm = "Serializer\<lparr>m_op := UNPACK, m_buffer := ?bm\<rparr>"
  let ?ss = "Serializer\<lparr>m_op := UNPACK, m_buffer := ?bs\<rparr>"
  let ?K = "TLeaf KInt" and ?V = "TLeaf KStr"
  let ?e1 = "VTuple [VLeaf (LInt 3), VLeaf (LStr ''a'')]"
  let ?e2 = "VTuple [VLeaf (LInt 3), VLeaf (LStr ''b'')]"
  let ?m1 = "\<lparr>m_op = UNPACK, m_packSize = 0, m_position = 11, m_buffer = ?bm, allocated = []\<rparr>"
  let ?m2 = "\<lparr>m_op = UNPACK, m_packSize = 0, m_position = 19, m_buffer = ?bm, allocated = []\<rparr>"
  let ?t1 = "\<lparr>m_op = UNPACK, m_packSize = 0, m_position = 8, m_buffer = ?bs, allocated = []\<rparr>"
  let ?t2 = "\<lparr>m_op = UNPACK, m_packSize = 0, m_position = 13, m_buffer = ?bs, allocated = []\<rparr>"
  have mm: "m_op ?sm = UNPACK" and ms: "m_op ?ss = UNPACK" by (simp_all add: Serializer_def)
  have rm: "p_read demo_packer KSize (drop (m_position ?sm) (m_buffer ?sm)) = Some (LSize 2, 3)"
    by code_simp
  have rs: "p_read demo_packer KSize (drop (m_position ?ss) (m_buffer ?ss)) = Some (LSize 2, 3)"
    by code_simp
  have rm': "p_read demo_packer KSize ?bm = Some (LSize 2, 3)" by code_simp
  have rs': "p_read demo_packer KSize ?bs = Some (LSize 2, 3)" by code_simp
  have a1: "serialize demo_packer (TTuple [?K, ?V]) (default_val (TTuple [?K, ?V]))
              (?sm\<lparr>m_position := m_position ?sm + 3\<rparr>) = Inr (?e1, ?m1)"
    by code_simp
  have a2: "serialize demo_packer (TTuple [?K, ?V]) (default_val (TTuple [?K, ?V])) ?m1
              = Inr (?e2, ?m2)"
    by code_simp
  have k: "key_of ?e1 = key_of ?e2" by simp
  have b1: "serialize demo_packer ?K (default_val ?K) (?ss\<lparr>m_position := m_position ?ss + 3\<rparr>)
              = Inr (VLeaf (LInt 3), ?t1)"
    by code_simp
  have b2: "serialize demo_packer ?K (default_val ?K) ?t1 = Inr (VLeaf (LInt 3), ?t2)"
    by code_simp
  have "2 = (2::nat) \<and> serialize demo_packer (TTuple [?K, ?V]) (default_val (TTuple [?K, ?V]))
              (?sm\<lparr>m_position := m_position ?sm + 3\<rparr>) = Inr (?e1, ?m1)
        \<and> serialize demo_packer (TTuple [?K, ?V]) (default_val (TTuple [?K, ?V])) ?m1
              = Inr (?e2, ?m2)
        \<and> key_of ?e1 = key_of ?e2"
    using a1 a2 k by (intro conjI) simp_all
  with duplicate_keys_collapse [OF mm rm, of ?K ?V _ _ _ _ _ _ _ ?e1 ?m1 ?e2 ?m2]
  have cm: "serialize demo_packer (TMap ?K ?V) (VMap []) ?sm = Inr (VMap [?e1], ?m2)"
    by blast
  have "2 = (2::nat)
        \<and> serialize demo_packer ?K (default_val ?K) (?ss\<lparr>m_position := m_position ?ss + 3\<rparr>)
              = Inr (VLeaf (LInt 3), ?t1)
        \<and> serialize demo_packer ?K (default_val ?K) ?t1 = Inr (VLeaf (LInt 3), ?t2)
        \<and> VLeaf (LInt 3) = VLeaf (LInt 3)"
    using b1 b2 by (intro conjI) simp_all
  with duplicate_keys_collapse [OF ms rs, of _ _ _ _ _ ?K _ _ _ _ _ _ _ "VLeaf (LInt 3)" ?t1
                                  "VLeaf (LInt 3)" ?t2]
  have cs: "serialize demo_packer (TSet ?K) (VSet []) ?ss = Inr (VSet [VLeaf (LInt 3)], ?t2)"
    by blast
  from mm rm' k cm ms rs' cs show ?thesis by (intro conjI)
qed

section \<open>The size pass counts what the write pass writes\<close>



section \<open>Packing and then unpacking gives the value back\<close>



section \<open>The alternative that was packed is the alternative that is unpacked\<close>

text \<open>
  Claim C7. Let a variant hold alternative \<open>i\<close> of its alternatives \<open>Ts\<close>. Packing it
  writes the index \<open>i\<close> and then the payload: with a packer that announces the sizes it
  writes, the buffer after \<open>pack\<close> is the bytes of the index \<open>i\<close> followed by the buffer
  that \<open>pack\<close> of the payload alone gives. Unpacking at a place where the index field
  holds \<open>i\<close> builds alternative \<open>i\<close> with a default-constructed payload and reads into
  that payload, whatever alternative the destination held before: a call that returns,
  returns alternative \<open>i\<close>.
\<close>

theorem variant_tag_fidelity:
  assumes "has_type (TVariant Ts) (VVariant i x)"
  shows "(packer_sizes P
          \<longrightarrow> (\<exists>s1 s2. pack P (TVariant Ts) (VVariant i x) s = Inr s1
                 \<and> pack P (Ts ! i) x s = Inr s2
                 \<and> m_buffer s1 = p_bytes P (LSize i) @ m_buffer s2))
       \<and> (m_op u = UNPACK
          \<and> p_read P KSize (drop (m_position u) (m_buffer u)) = Some (LSize i, n)
          \<longrightarrow> serialize P (TVariant Ts) (VVariant j y) u
              = and_then (serialize P (Ts ! i) (default_val (Ts ! i))
                            (u\<lparr>m_position := m_position u + n\<rparr>))
                  (\<lambda>(y', u'). Inr (VVariant i y', u'))
            \<and> (\<forall>w u'. serialize P (TVariant Ts) (VVariant j y) u = Inr (w, u')
                  \<longrightarrow> (\<exists>y'. w = VVariant i y')))"
proof (intro conjI impI)
  from assms have i: "i < length Ts" by simp
  from assms i have tx: "has_type (Ts ! i) x" by simp
  {
    assume sz: "packer_sizes P"
    have "encode P (TVariant Ts) (VVariant i x) = p_bytes P (LSize i) @ encode P (Ts ! i) x"
      using i by simp
    then show "\<exists>s1 s2. pack P (TVariant Ts) (VVariant i x) s = Inr s1
                 \<and> pack P (Ts ! i) x s = Inr s2
                 \<and> m_buffer s1 = p_bytes P (LSize i) @ m_buffer s2"
      by (simp add: pack_result [OF sz assms] pack_result [OF sz tx])
  }
  {
    assume a: "m_op u = UNPACK
          \<and> p_read P KSize (drop (m_position u) (m_buffer u)) = Some (LSize i, n)"
    with i show e: "serialize P (TVariant Ts) (VVariant j y) u
              = and_then (serialize P (Ts ! i) (default_val (Ts ! i))
                            (u\<lparr>m_position := m_position u + n\<rparr>))
                  (\<lambda>(y', u'). Inr (VVariant i y', u'))"
      by (simp add: leaf_unpack make_variant_within)
    show "\<forall>w u'. serialize P (TVariant Ts) (VVariant j y) u = Inr (w, u')
                  \<longrightarrow> (\<exists>y'. w = VVariant i y')"
      unfolding e by (auto simp: and_then_Inr_iff)
  }
qed

text \<open>
  Alternative \<open>2\<close> of three, a \<open>bool\<close>; the destination of the unpacking holds
  alternative \<open>0\<close>.
\<close>

theorem variant_tag_fidelity_witness:
  "has_type (TVariant [TLeaf KInt, TLeaf KStr, TLeaf KBool]) (VVariant 2 (VLeaf (LBool True)))
   \<and> packer_sizes demo_packer
   \<and> pack demo_packer (TVariant [TLeaf KInt, TLeaf KStr, TLeaf KBool])
        (VVariant 2 (VLeaf (LBool True))) Serializer
       = Inr \<lparr>m_op = PACK, m_packSize = 4, m_position = 4, m_buffer = [1, 1, 0, 1],
               allocated = []\<rparr>
   \<and> pack demo_packer (TLeaf KBool) (VLeaf (LBool True)) Serializer
       = Inr \<lparr>m_op = PACK, m_packSize = 1, m_position = 1, m_buffer = [1], allocated = []\<rparr>
   \<and> p_bytes demo_packer (LSize 2) = [1, 1, 0]
   \<and> m_op (Serializer\<lparr>m_op := UNPACK, m_buffer := [1, 1, 0, 1]\<rparr>) = UNPACK
   \<and> p_read demo_packer KSize [1, 1, 0, 1] = Some (LSize 2, 3)
   \<and> serialize demo_packer (TVariant [TLeaf KInt, TLeaf KStr, TLeaf KBool])
        (VVariant 0 (VLeaf (LInt 0))) (Serializer\<lparr>m_op := UNPACK, m_buffer := [1, 1, 0, 1]\<rparr>)
       = Inr (VVariant 2 (VLeaf (LBool True)),
              \<lparr>m_op = UNPACK, m_packSize = 0, m_position = 4, m_buffer = [1, 1, 0, 1],
                 allocated = []\<rparr>)"
proof -
  let ?Ts = "[TLeaf KInt, TLeaf KStr, TLeaf KBool]"
  let ?x = "VLeaf (LBool True)"
  let ?u = "Serializer\<lparr>m_op := UNPACK, m_buffer := [1, 1, 0, 1]\<rparr>"
  let ?u' = "\<lparr>m_op = UNPACK, m_packSize = 0, m_position = 4, m_buffer = [1, 1, 0, 1],
                 allocated = []\<rparr>"
  have ht: "has_type (TVariant ?Ts) (VVariant 2 ?x)" by code_simp
  note t = variant_tag_fidelity [OF ht, of demo_packer Serializer ?u 3 0 "VLeaf (LInt 0)"]
  have p1: "pack demo_packer (TVariant ?Ts) (VVariant 2 ?x) Serializer
       = Inr \<lparr>m_op = PACK, m_packSize = 4, m_position = 4, m_buffer = [1, 1, 0, 1],
               allocated = []\<rparr>"
    by code_simp
  have p2: "pack demo_packer (TLeaf KBool) ?x Serializer
       = Inr \<lparr>m_op = PACK, m_packSize = 1, m_position = 1, m_buffer = [1], allocated = []\<rparr>"
    by code_simp
  have b: "p_bytes demo_packer (LSize 2) = [1, 1, 0]" by code_simp
  have m: "m_op ?u = UNPACK" by (simp add: Serializer_def)
  have r: "p_read demo_packer KSize (drop (m_position ?u) (m_buffer ?u)) = Some (LSize 2, 3)"
    by code_simp
  have r': "p_read demo_packer KSize [1, 1, 0, 1] = Some (LSize 2, 3)" by code_simp
  have c: "and_then (serialize demo_packer (?Ts ! 2) (default_val (?Ts ! 2))
                            (?u\<lparr>m_position := m_position ?u + 3\<rparr>))
                  (\<lambda>(y', u'). Inr (VVariant 2 y', u'))
           = Inr (VVariant 2 ?x, ?u')"
    by code_simp
  from t m r have "serialize demo_packer (TVariant ?Ts) (VVariant 0 (VLeaf (LInt 0))) ?u
              = and_then (serialize demo_packer (?Ts ! 2) (default_val (?Ts ! 2))
                            (?u\<lparr>m_position := m_position ?u + 3\<rparr>))
                  (\<lambda>(y', u'). Inr (VVariant 2 y', u'))"
    by blast
  then have s: "serialize demo_packer (TVariant ?Ts) (VVariant 0 (VLeaf (LInt 0))) ?u
                  = Inr (VVariant 2 ?x, ?u')"
    by (simp only: c)
  from ht packer_sizes_demo p1 p2 b m r' s show ?thesis by (intro conjI)
qed

end
